theory Spec2Isabelle
  imports Main "HOL-Library.Char_ord" "HOL-Library.List_Lexorder"
begin

section \<open>Regular expressions: the exclusion pattern\<close>

text \<open>
  \<^verbatim>\<open>createAppArchive\<close> compiles one pattern with \<^verbatim>\<open>regexp.MustCompile\<close> and asks
  \<^verbatim>\<open>MatchString\<close> for every path of the traversal. The syntax tree below has the operators
  this pattern uses. A path is a \<^typ>\<open>string\<close>; one \<^typ>\<open>char\<close> stands for one character
  as the matcher reads it, and \<^verbatim>\<open>.\<close> stands for every character except the newline,
  as in Go's syntax without the \<^verbatim>\<open>s\<close> flag.
\<close>

datatype regex =
    Lit char
  | AnyCharNotNL
  | Star regex
  | Concat regex regex
  | Alternate regex regex
  | Capture regex
  | EmptyMatch

text \<open>
  \<open>rmatch r s\<close> lists what is left of \<open>s\<close> after each way of matching \<open>r\<close> at its
  beginning. An iteration of a starred expression that consumes nothing adds no match, so
  only the strictly shorter remainders are iterated.
\<close>

function rmatch :: "regex \<Rightarrow> string \<Rightarrow> string list" where
  "rmatch (Lit c) s = (case s of [] \<Rightarrow> [] | x # xs \<Rightarrow> if x = c then [xs] else [])"
| "rmatch AnyCharNotNL s =
     (case s of [] \<Rightarrow> [] | x # xs \<Rightarrow> if x \<noteq> CHR 0x0A then [xs] else [])"
| "rmatch (Star r) s =
     s # concat (map (rmatch (Star r)) (filter (\<lambda>t. length t < length s) (rmatch r s)))"
| "rmatch (Concat r1 r2) s = concat (map (rmatch r2) (rmatch r1 s))"
| "rmatch (Alternate r1 r2) s = rmatch r1 s @ rmatch r2 s"
| "rmatch (Capture r) s = rmatch r s"
| "rmatch EmptyMatch s = [s]"
  by pat_completeness auto
termination
  by (relation "measures [\<lambda>(r, s). size r, \<lambda>(r, s). length s]") auto

text \<open>
  The equation of \<open>Star\<close> mentions itself, so it is unfolded on request only
  (\<open>rmatch_Star\<close>), when a concrete string is evaluated.
\<close>

lemmas rmatch_Star = rmatch.simps(3)

declare rmatch.simps(3) [simp del]

text \<open>\<^verbatim>\<open>MatchString\<close> reports whether the string contains any match: the search is not anchored.\<close>

fun MatchString :: "regex \<Rightarrow> string \<Rightarrow> bool" where
  "MatchString r [] = (rmatch r [] \<noteq> [])"
| "MatchString r (c # cs) = (rmatch r (c # cs) \<noteq> [] \<or> MatchString r cs)"

fun literal :: "string \<Rightarrow> regex" where
  "literal [] = EmptyMatch"
| "literal (c # cs) = Concat (Lit c) (literal cs)"

text \<open>
  The pattern of the source, alternative by alternative:
  \<^verbatim>\<open>(.DS_Store)|(go/.*/.git)|(go/.*/.bzr)|(go/.*/.hg)|(go/pkg)|(go/bin)\<close>.
\<close>

definition under_go :: "string \<Rightarrow> regex" where
  "under_go vcs =
     Concat (literal ''go/'') (Concat (Star AnyCharNotNL)
       (Concat (Lit CHR ''/'') (Concat AnyCharNotNL (literal vcs))))"

definition exclusionPattern :: regex where
  "exclusionPattern =
     Alternate (Capture (Concat AnyCharNotNL (literal ''DS_Store'')))
    (Alternate (Capture (under_go ''git''))
    (Alternate (Capture (under_go ''bzr''))
    (Alternate (Capture (under_go ''hg''))
    (Alternate (Capture (literal ''go/pkg''))
               (Capture (literal ''go/bin''))))))"

definition patternToExclude :: regex where
  "patternToExclude = exclusionPattern"

section \<open>Paths: \<^verbatim>\<open>filepath.Clean\<close> and \<^verbatim>\<open>filepath.Join\<close>\<close>

text \<open>
  \<^verbatim>\<open>filepath.Walk\<close> names every child \<^verbatim>\<open>Join(path, name)\<close>, and \<^verbatim>\<open>Join\<close> cleans its
  result: repeated separators and \<^verbatim>\<open>.\<close> elements go, a \<^verbatim>\<open>..\<close> element removes the element
  before it (at the start of a rooted path it is dropped, at the start of a relative path it
  stays), and the empty result is \<^verbatim>\<open>.\<close>. The separator is \<^verbatim>\<open>/\<close>.
\<close>

fun split_path :: "string \<Rightarrow> string list" where
  "split_path [] = [[]]"
| "split_path (c # cs) =
     (if c = CHR ''/'' then [] # split_path cs
      else (case split_path cs of [] \<Rightarrow> [[c]] | s # ss \<Rightarrow> (c # s) # ss))"

fun join_sep :: "string list \<Rightarrow> string" where
  "join_sep [] = []"
| "join_sep [s] = s"
| "join_sep (s # t # ss) = s @ CHR ''/'' # join_sep (t # ss)"

text \<open>The elements written so far are kept newest first.\<close>

definition clean_elem :: "bool \<Rightarrow> string list \<Rightarrow> string \<Rightarrow> string list" where
  "clean_elem rooted out e =
     (if e = [] \<or> e = ''.'' then out
      else if e = ''..'' then
        (case out of
           [] \<Rightarrow> if rooted then [] else [''..'']
         | e0 # rest \<Rightarrow> if e0 = ''..'' then ''..'' # out else rest)
      else e # out)"

definition Clean :: "string \<Rightarrow> string" where
  "Clean path =
     (if path = [] then ''.''
      else let rooted = (hd path = CHR ''/'');
               out = join_sep (rev (foldl (clean_elem rooted) [] (split_path path)))
           in if rooted then CHR ''/'' # out
              else if out = [] then ''.'' else out)"

definition Join :: "string \<Rightarrow> string \<Rightarrow> string" where
  "Join dir name =
     (if dir \<noteq> [] then Clean (dir @ CHR ''/'' # name)
      else if name \<noteq> [] then Clean name
      else [])"

section \<open>The file system as the archive builder sees it\<close>

datatype error = ErrInvalid | Err string

text \<open>
  A node is what lies at one path. The kinds are the ones the builder can tell apart:
  \<^item> \<open>RegularFile c\<close>: opens, is regular, and reads as the bytes \<open>c\<close>;
  \<^item> \<open>BrokenRead c e\<close>: opens and is regular, but reading fails with \<open>e\<close> after the bytes \<open>c\<close>;
  \<^item> \<open>Unopenable e\<close>: not a directory for the traversal, and \<^verbatim>\<open>os.Open\<close> fails with \<open>e\<close>;
  \<^item> \<open>Unstatable e\<close>: opens, but \<^verbatim>\<open>Stat\<close> on the open file fails with \<open>e\<close>;
  \<^item> \<open>Irregular\<close>: opens, and is neither a regular file nor a directory;
  \<^item> \<open>Directory cs\<close>: a directory with the named children \<open>cs\<close>;
  \<^item> \<open>UnreadableDir e\<close>: a directory that can neither be listed nor opened (error \<open>e\<close>).
\<close>

datatype node =
    RegularFile string
  | BrokenRead string error
  | Unopenable error
  | Unstatable error
  | Irregular
  | Directory "(string \<times> node) list"
  | UnreadableDir error

datatype FileMode = ModeRegular | ModeDir | ModeOther

text \<open>\<^verbatim>\<open>os.Open\<close>: the open file, or \<^verbatim>\<open>nil\<close> (\<open>None\<close>) and the error.\<close>

fun os_Open :: "node \<Rightarrow> node option \<times> error option" where
  "os_Open (Unopenable e) = (None, Some e)"
| "os_Open (UnreadableDir e) = (None, Some e)"
| "os_Open n = (Some n, None)"

text \<open>\<^verbatim>\<open>(*os.File).Stat\<close>: on the \<^verbatim>\<open>nil\<close> file it returns \<^verbatim>\<open>os.ErrInvalid\<close>.\<close>

fun Stat :: "node option \<Rightarrow> FileMode option \<times> error option" where
  "Stat None = (None, Some ErrInvalid)"
| "Stat (Some (Unstatable e)) = (None, Some e)"
| "Stat (Some (RegularFile c)) = (Some ModeRegular, None)"
| "Stat (Some (BrokenRead c e)) = (Some ModeRegular, None)"
| "Stat (Some (Directory cs)) = (Some ModeDir, None)"
| "Stat (Some (UnreadableDir e)) = (Some ModeDir, None)"
| "Stat (Some n) = (Some ModeOther, None)"

section \<open>The zip writer\<close>

text \<open>
  What the environment may refuse: creating the output file, adding an entry header, and
  finishing the archive.
\<close>

record zip_env =
  osCreate_err :: "string \<Rightarrow> error option"
  wCreate_err :: "string \<Rightarrow> error option"
  wClose_err :: "error option"

text \<open>
  The archive under construction: the entries in the order of their creation, each with the
  bytes copied into it; whether the output file was created (\<open>buf_ok\<close>); whether the central
  directory has been written (\<open>closed\<close>); and the errors printed with \<^verbatim>\<open>fmt.Println\<close>.
\<close>

record archive =
  entries :: "(string \<times> string) list"
  buf_ok :: bool
  closed :: bool
  printed :: "error list"

text \<open>
  A step of the builder either returns (with its \<^verbatim>\<open>error\<close> value, \<open>None\<close> for \<^verbatim>\<open>nil\<close>) or
  ends the process through \<^verbatim>\<open>log.Fatal\<close>.
\<close>

datatype outcome = Return "error option" archive | Fatal error archive

fun archive_of :: "outcome \<Rightarrow> archive" where
  "archive_of (Return e w) = w"
| "archive_of (Fatal e w) = w"

definition NewWriter :: "bool \<Rightarrow> archive" where
  "NewWriter ok = \<lparr>entries = [], buf_ok = ok, closed = False, printed = []\<rparr>"

definition w_Create :: "zip_env \<Rightarrow> string \<Rightarrow> archive \<Rightarrow> archive \<times> error option" where
  "w_Create env name w =
     (case wCreate_err env name of
        Some e \<Rightarrow> (w, Some e)
      | None \<Rightarrow> (w\<lparr>entries := entries w @ [(name, [])]\<rparr>, None))"

text \<open>\<^verbatim>\<open>io.Copy(fo, fi)\<close> appends what can be read from \<open>fi\<close> to the entry created last.\<close>

definition append_last :: "string \<Rightarrow> archive \<Rightarrow> archive" where
  "append_last c w =
     (case rev (entries w) of
        [] \<Rightarrow> w
      | (name, bytes) # before \<Rightarrow> w\<lparr>entries := rev before @ [(name, bytes @ c)]\<rparr>)"

fun io_Copy :: "node option \<Rightarrow> archive \<Rightarrow> archive \<times> error option" where
  "io_Copy (Some (RegularFile c)) w = (append_last c w, None)"
| "io_Copy (Some (BrokenRead c e)) w = (append_last c w, Some e)"
| "io_Copy fi w = (w, Some ErrInvalid)"

text \<open>
  \<^verbatim>\<open>w.Close()\<close> writes the central directory and flushes the buffered writer; on an output
  file that was never created the flush fails with \<^verbatim>\<open>os.ErrInvalid\<close>.
\<close>

definition w_Close :: "zip_env \<Rightarrow> archive \<Rightarrow> archive \<times> error option" where
  "w_Close env w =
     (if \<not> buf_ok w then (w, Some ErrInvalid)
      else case wClose_err env of
             Some e \<Rightarrow> (w, Some e)
           | None \<Rightarrow> (w\<lparr>closed := True\<rparr>, None))"

definition Println :: "error \<Rightarrow> archive \<Rightarrow> archive" where
  "Println e w = w\<lparr>printed := printed w @ [e]\<rparr>"

section \<open>\<^verbatim>\<open>createAppArchive\<close>\<close>

text \<open>
  The function passed to \<^verbatim>\<open>filepath.Walk\<close>. Its parameter \<open>err\<close> is what the traversal
  reports for the path. In the branch of a path that is not excluded the source declares a
  second \<^verbatim>\<open>err\<close> (\<open>err1\<close>: set by \<^verbatim>\<open>os.Open\<close>, then by \<^verbatim>\<open>fi.Stat\<close>), and in the clause of a
  regular file a third one (\<open>err2\<close>: declared by \<^verbatim>\<open>fo, err := w.Create(path)\<close>, then set by
  \<^verbatim>\<open>io.Copy\<close>). The test after the \<^verbatim>\<open>switch\<close> reads \<open>err1\<close>, and the final \<^verbatim>\<open>return err\<close>
  reads the parameter.
\<close>

definition walkFn :: "zip_env \<Rightarrow> string \<Rightarrow> node \<Rightarrow> error option \<Rightarrow> archive \<Rightarrow> outcome" where
  "walkFn env path info err w =
     (if MatchString patternToExclude path then Return err w
      else
        let (fi, err1) = os_Open info;
            (fi_stat, err1) = Stat fi
        in case err1 of
             Some e \<Rightarrow> Return (Some e) (Println e w)
           | None \<Rightarrow>
               (case fi_stat of
                  Some ModeRegular \<Rightarrow>
                    (case w_Create env path w of
                       (w1, Some e) \<Rightarrow> Fatal e w1
                     | (w1, None) \<Rightarrow>
                         let (w2, err2) = io_Copy fi w1
                         in (case err1 of Some e \<Rightarrow> Fatal e w2 | None \<Rightarrow> Return err w2))
                | _ \<Rightarrow> (case err1 of Some e \<Rightarrow> Fatal e w | None \<Rightarrow> Return err w)))"

lemma size_list_insort_key:
  "size_list f (insort_key k x xs) = Suc (f x + size_list f xs)"
  by (induction xs) auto

lemma size_list_sort_key: "size_list f (sort_key k xs) = size_list f xs"
  by (induction xs) (auto simp: size_list_insort_key)

text \<open>
  \<^verbatim>\<open>filepath.Walk\<close>: a path that is not a directory is handed to the function; for a
  directory the names are read and sorted, the function is called with the error of that
  read, and, unless either failed, the children are walked in the order of their names. The
  first error ends the traversal and is its result. (The function of this program never
  returns \<^verbatim>\<open>SkipDir\<close>.)
\<close>

function walk :: "(string \<Rightarrow> node \<Rightarrow> error option \<Rightarrow> archive \<Rightarrow> outcome) \<Rightarrow>
    string \<Rightarrow> node \<Rightarrow> archive \<Rightarrow> outcome"
  and walk_names :: "(string \<Rightarrow> node \<Rightarrow> error option \<Rightarrow> archive \<Rightarrow> outcome) \<Rightarrow>
    string \<Rightarrow> (string \<times> node) list \<Rightarrow> archive \<Rightarrow> outcome"
where
  "walk fn path (Directory cs) w =
     (case fn path (Directory cs) None w of
        Fatal e w1 \<Rightarrow> Fatal e w1
      | Return (Some e) w1 \<Rightarrow> Return (Some e) w1
      | Return None w1 \<Rightarrow> walk_names fn path (sort_key fst cs) w1)"
| "walk fn path (UnreadableDir e) w = fn path (UnreadableDir e) (Some e) w"
| "walk fn path (RegularFile c) w = fn path (RegularFile c) None w"
| "walk fn path (BrokenRead c e) w = fn path (BrokenRead c e) None w"
| "walk fn path (Unopenable e) w = fn path (Unopenable e) None w"
| "walk fn path (Unstatable e) w = fn path (Unstatable e) None w"
| "walk fn path Irregular w = fn path Irregular None w"
| "walk_names fn path [] w = Return None w"
| "walk_names fn path ((name, child) # rest) w =
     (case walk fn (Join path name) child w of
        Fatal e w1 \<Rightarrow> Fatal e w1
      | Return (Some e) w1 \<Rightarrow> Return (Some e) w1
      | Return None w1 \<Rightarrow> walk_names fn path rest w1)"
  by pat_completeness auto
termination
  by (relation "measure (case_sum (\<lambda>(fn, p, n, w). size n)
                                  (\<lambda>(fn, p, cs, w). size_list (size_prod (\<lambda>_. 0) size) cs))")
     (auto simp: size_list_sort_key)

definition Walk :: "string \<Rightarrow> node \<Rightarrow>
    (string \<Rightarrow> node \<Rightarrow> error option \<Rightarrow> archive \<Rightarrow> outcome) \<Rightarrow> archive \<Rightarrow> outcome" where
  "Walk root tree fn w = walk fn root tree w"

text \<open>
  \<open>tree\<close> is what lies at \<open>appName\<close>. The error of \<^verbatim>\<open>os.Create\<close> is overwritten before it
  is read, and the result of \<^verbatim>\<open>filepath.Walk\<close> is dropped; \<^verbatim>\<open>w.Close()\<close> decides the result.
\<close>

definition createAppArchive :: "zip_env \<Rightarrow> node \<Rightarrow> string \<Rightarrow> string \<Rightarrow> outcome" where
  "createAppArchive env tree appName zipFileName =
     (let buf_err = osCreate_err env zipFileName;
          w = NewWriter (buf_err = None)
      in case Walk appName tree (walkFn env) w of
           Fatal e w1 \<Rightarrow> Fatal e w1
         | Return walk_err w1 \<Rightarrow>
             (case w_Close env w1 of
                (w2, Some e) \<Rightarrow> Fatal e w2
              | (w2, None) \<Rightarrow> Return None w2))"

section \<open>The command dispatcher\<close>

subsection \<open>Arguments, collaborator and environment\<close>

datatype command = Connect | List | Show | Create | Upload | Start | Stop | Restart | Delete

text \<open>
  The commands of the two usage texts handed to \<^verbatim>\<open>docopt.Parse\<close>: \<^verbatim>\<open>src/q.go\<close> has
  \<^verbatim>\<open>q (start|stop) <appid>\<close>, \<^verbatim>\<open>src/unnamed/part_000\<close> has \<^verbatim>\<open>q (start|stop|restart) <appid>\<close>.
\<close>

definition usage_q :: "command list" where
  "usage_q = [Connect, List, Show, Create, Upload, Start, Stop, Delete]"

definition usage_part_000 :: "command list" where
  "usage_part_000 = [Connect, List, Show, Create, Upload, Start, Stop, Restart, Delete]"

text \<open>
  The map returned by \<^verbatim>\<open>docopt.Parse\<close>: a boolean for every command word, and for every
  positional argument and option its string, or \<^verbatim>\<open>nil\<close> (\<open>None\<close>) when it was not given.
\<close>

record arguments =
  arg_connect :: bool
  arg_list :: bool
  arg_show :: bool
  arg_create :: bool
  arg_upload :: bool
  arg_start :: bool
  arg_stop :: bool
  arg_restart :: bool
  arg_delete :: bool
  arg_service :: "string option"
  opt_u :: "string option"
  opt_p :: "string option"
  arg_appid :: "string option"
  arg_appname :: "string option"
  arg_versionid :: "string option"

text \<open>The arguments of a command line that names exactly the command \<open>cmd\<close>.\<close>

definition selects :: "command \<Rightarrow> arguments \<Rightarrow> bool" where
  "selects cmd args \<longleftrightarrow>
     arg_connect args = (cmd = Connect) \<and> arg_list args = (cmd = List)
   \<and> arg_show args = (cmd = Show) \<and> arg_create args = (cmd = Create)
   \<and> arg_upload args = (cmd = Upload) \<and> arg_start args = (cmd = Start)
   \<and> arg_stop args = (cmd = Stop) \<and> arg_restart args = (cmd = Restart)
   \<and> arg_delete args = (cmd = Delete)"

record Connection =
  Service :: string
  Credentials :: string

text \<open>
  Of an application descriptor the program reads the name; all its other fields are only
  rendered (\<open>Rendered\<close> stands for them).
\<close>

record App =
  Name :: string
  Rendered :: string

text \<open>The methods of \<^verbatim>\<open>agent.Connection\<close> that the program invokes.\<close>

datatype call =
    GetApps
  | GetApp string
  | CreateApp App
  | CreateAppVersion string string
  | StartApp string
  | StartAppVersion string string
  | StopApp string
  | StopAppVersion string string
  | DeleteApp string
  | DeleteAppVersion string string

text \<open>
  What an invocation leaves behind: the returned \<^verbatim>\<open>error\<close>, and the value it stored
  through its first parameter (a list of applications, one application, or a result map,
  according to the method).
\<close>

record reply =
  reply_err :: "error option"
  reply_apps :: "App list"
  reply_app :: App
  reply_result :: string

datatype printout =
    UnableToRead string
  | ErrorLine error
  | AppsTable "App list"
  | AppTables App
  | AppInfo App
  | ResultMap string
  | ArgumentsMap arguments

datatype event =
    ReadFile string
  | WriteFile string string
  | Remove string
  | Exec "string list"
  | Called Connection call
  | Printed printout

datatype status = Returned | Panicked error | Exited error

text \<open>
  The surroundings of one run: the home directory, the codecs (of \<^verbatim>\<open>encoding/json\<close> for
  the connection record, of \<^verbatim>\<open>yaml\<close> for the manifest; a decoding error is ignored by the
  program, the decoder decides what it leaves in the value), the collaborator, what
  \<^verbatim>\<open>filepath.Walk\<close> finds at a path, the archive writer's environment and encoding, and the
  external \<^verbatim>\<open>zip\<close> program of \<^verbatim>\<open>src/q.go\<close> (its error, or the bytes of the file it leaves).
\<close>

record environment =
  HOME :: string
  json_Marshal :: "Connection \<Rightarrow> error + string"
  json_Unmarshal :: "string \<Rightarrow> Connection"
  yaml_Unmarshal :: "string \<Rightarrow> App"
  WriteFile_err :: "string \<Rightarrow> error option"
  remote :: "Connection \<Rightarrow> call \<Rightarrow> reply"
  tree_at :: "string \<Rightarrow> node"
  zip_writer :: zip_env
  zip_bytes :: "(string \<times> string) list \<Rightarrow> string"
  zip_program :: "string \<Rightarrow> string \<Rightarrow> error + string"

text \<open>
  The state of a run: what \<^verbatim>\<open>ioutil.ReadFile\<close> would return for every file name, and the
  events so far.
\<close>

record world =
  files :: "string \<Rightarrow> error + string"
  trace :: "event list"

subsection \<open>Steps of a run\<close>

text \<open>A step changes the world and either yields a value or ends the program.\<close>

type_synonym 'a step = "world \<Rightarrow> (status + 'a) \<times> world"

definition andthen :: "'a step \<Rightarrow> ('a \<Rightarrow> 'b step) \<Rightarrow> 'b step" where
  "andthen m f w = (case m w of (Inl st, w1) \<Rightarrow> (Inl st, w1) | (Inr x, w1) \<Rightarrow> f x w1)"

definition yield :: "'a \<Rightarrow> 'a step" where
  "yield x w = (Inr x, w)"

definition return_from_main :: "'a step" where
  "return_from_main w = (Inl Returned, w)"

definition emit :: "event \<Rightarrow> unit step" where
  "emit ev w = (Inr (), w\<lparr>trace := trace w @ [ev]\<rparr>)"

text \<open>\<^verbatim>\<open>check(err)\<close> panics on an error.\<close>

definition check :: "error option \<Rightarrow> unit step" where
  "check err w = (case err of None \<Rightarrow> (Inr (), w) | Some e \<Rightarrow> (Inl (Panicked e), w))"

text \<open>The type assertion \<^verbatim>\<open>.(string)\<close> panics on \<^verbatim>\<open>nil\<close>.\<close>

definition assert_string :: "string option \<Rightarrow> string step" where
  "assert_string v w =
     (case v of Some s \<Rightarrow> (Inr s, w)
      | None \<Rightarrow> (Inl (Panicked (Err ''interface conversion: interface is nil, not string'')), w))"

text \<open>The verb \<^verbatim>\<open>%v\<close> applied to a string or to \<^verbatim>\<open>nil\<close>.\<close>

definition fmt_v :: "string option \<Rightarrow> string" where
  "fmt_v v = (case v of Some s \<Rightarrow> s | None \<Rightarrow> ''<nil>'')"

definition ioutil_ReadFile :: "string \<Rightarrow> (string \<times> error option) step" where
  "ioutil_ReadFile name w =
     (case files w name of
        Inl e \<Rightarrow> (Inr ([], Some e), w\<lparr>trace := trace w @ [ReadFile name]\<rparr>)
      | Inr bytes \<Rightarrow> (Inr (bytes, None), w\<lparr>trace := trace w @ [ReadFile name]\<rparr>))"

definition ioutil_WriteFile :: "environment \<Rightarrow> string \<Rightarrow> string \<Rightarrow> (error option) step" where
  "ioutil_WriteFile env name bytes w =
     (case WriteFile_err env name of
        Some e \<Rightarrow> (Inr (Some e), w\<lparr>trace := trace w @ [WriteFile name bytes]\<rparr>)
      | None \<Rightarrow> (Inr None, w\<lparr>files := (files w)(name := Inr bytes),
                               trace := trace w @ [WriteFile name bytes]\<rparr>))"

definition os_Remove :: "string \<Rightarrow> unit step" where
  "os_Remove name w =
     (Inr (), w\<lparr>files := (files w)(name := Inl (Err ''no such file or directory'')),
                 trace := trace w @ [Remove name]\<rparr>)"

definition invoke :: "environment \<Rightarrow> Connection \<Rightarrow> call \<Rightarrow> reply step" where
  "invoke env c k w = (Inr (remote env c k), w\<lparr>trace := trace w @ [Called c k]\<rparr>)"

definition Printf :: "printout \<Rightarrow> unit step" where
  "Printf out = emit (Printed out)"

definition credentialsFileName :: "environment \<Rightarrow> string" where
  "credentialsFileName env = HOME env @ ''/.agent.json''"

subsection \<open>The blocks of \<^verbatim>\<open>main\<close>\<close>

text \<open>\<^verbatim>\<open>if arguments["connect"].(bool) { ... }\<close>, the same in both files.\<close>

definition connect_block :: "environment \<Rightarrow> arguments \<Rightarrow> Connection step" where
  "connect_block env args =
     andthen (assert_string (arg_service args)) (\<lambda>service.
     let c = \<lparr>Service = service,
              Credentials = fmt_v (opt_u args) @ '':'' @ fmt_v (opt_p args)\<rparr>
     in case json_Marshal env c of
          Inl e \<Rightarrow> andthen (check (Some e)) (\<lambda>_. yield c)
        | Inr bytes \<Rightarrow>
            andthen (ioutil_WriteFile env (credentialsFileName env) bytes) (\<lambda>err.
            andthen (check err) (\<lambda>_. yield c)))"

text \<open>The \<^verbatim>\<open>else\<close> branch in \<^verbatim>\<open>src/q.go\<close>: \<^verbatim>\<open>check(err)\<close> after \<^verbatim>\<open>ioutil.ReadFile\<close>.\<close>

definition read_connection_q :: "environment \<Rightarrow> Connection step" where
  "read_connection_q env =
     andthen (ioutil_ReadFile (credentialsFileName env)) (\<lambda>(bytes, err).
     andthen (check err) (\<lambda>_. yield (json_Unmarshal env bytes)))"

text \<open>The \<^verbatim>\<open>else\<close> branch in \<^verbatim>\<open>src/unnamed/part_000\<close>: a message, and \<^verbatim>\<open>return\<close>.\<close>

definition read_connection_part_000 :: "environment \<Rightarrow> Connection step" where
  "read_connection_part_000 env =
     andthen (ioutil_ReadFile (credentialsFileName env)) (\<lambda>(bytes, err).
     case err of
       Some e \<Rightarrow> andthen (Printf (UnableToRead (credentialsFileName env))) (\<lambda>_. return_from_main)
     | None \<Rightarrow> yield (json_Unmarshal env bytes))"

definition list_block_q :: "environment \<Rightarrow> Connection \<Rightarrow> unit step" where
  "list_block_q env c =
     andthen (invoke env c GetApps) (\<lambda>r.
     andthen (Printf (AppsTable (reply_apps r))) (\<lambda>_. return_from_main))"

definition list_block_part_000 :: "environment \<Rightarrow> Connection \<Rightarrow> unit step" where
  "list_block_part_000 env c =
     andthen (invoke env c GetApps) (\<lambda>r.
     case reply_err r of
       Some e \<Rightarrow> andthen (Printf (ErrorLine e)) (\<lambda>_. return_from_main)
     | None \<Rightarrow> andthen (Printf (AppsTable (reply_apps r))) (\<lambda>_. return_from_main))"

definition show_block_q :: "environment \<Rightarrow> arguments \<Rightarrow> Connection \<Rightarrow> unit step" where
  "show_block_q env args c =
     andthen (assert_string (arg_appid args)) (\<lambda>appid.
     andthen (invoke env c (GetApp appid)) (\<lambda>r.
     andthen (Printf (AppTables (reply_app r))) (\<lambda>_. return_from_main)))"

definition show_block_part_000 :: "environment \<Rightarrow> arguments \<Rightarrow> Connection \<Rightarrow> unit step" where
  "show_block_part_000 env args c =
     andthen (assert_string (arg_appid args)) (\<lambda>appid.
     andthen (invoke env c (GetApp appid)) (\<lambda>r.
     case reply_err r of
       Some e \<Rightarrow> andthen (Printf (ErrorLine e)) (\<lambda>_. return_from_main)
     | None \<Rightarrow> andthen (Printf (AppTables (reply_app r))) (\<lambda>_. return_from_main)))"

text \<open>\<^verbatim>\<open>create\<close>, the same in both files. The value returned by \<^verbatim>\<open>c.CreateApp\<close> is dropped.\<close>

definition create_block :: "environment \<Rightarrow> arguments \<Rightarrow> Connection \<Rightarrow> unit step" where
  "create_block env args c =
     andthen (ioutil_ReadFile (fmt_v (arg_appname args) @ ''/app.yaml'')) (\<lambda>(bytes, err).
     andthen (check err) (\<lambda>_.
     let appinfo = yaml_Unmarshal env bytes in
     andthen (Printf (AppInfo appinfo)) (\<lambda>_.
     andthen (invoke env c (CreateApp appinfo)) (\<lambda>r.
     andthen (Printf (ResultMap (reply_result r))) (\<lambda>_. return_from_main)))))"

text \<open>
  The external \<^verbatim>\<open>zip -r zipfilename name\<close> of \<^verbatim>\<open>src/q.go\<close>, and the call of
  \<^verbatim>\<open>createAppArchive\<close> of \<^verbatim>\<open>src/unnamed/part_000\<close>. When the builder returns, the output
  file holds the encoded archive; when it ends the process, so does the run (what the
  unfinished file holds is left open).
\<close>

definition exec_zip :: "environment \<Rightarrow> string \<Rightarrow> string \<Rightarrow> (error option) step" where
  "exec_zip env zipfilename name w =
     (case zip_program env zipfilename name of
        Inl e \<Rightarrow> (Inr (Some e), w\<lparr>trace := trace w @ [Exec [''zip'', ''-r'', zipfilename, name]]\<rparr>)
      | Inr bytes \<Rightarrow>
          (Inr None, w\<lparr>files := (files w)(zipfilename := Inr bytes),
                       trace := trace w @ [Exec [''zip'', ''-r'', zipfilename, name]]\<rparr>))"

definition run_createAppArchive ::
    "environment \<Rightarrow> string \<Rightarrow> string \<Rightarrow> (error option) step" where
  "run_createAppArchive env appName zipFileName w =
     (case createAppArchive (zip_writer env) (tree_at env appName) appName zipFileName of
        Fatal e a \<Rightarrow>
          (Inl (Exited e), w\<lparr>trace := trace w @ map (\<lambda>x. Printed (ErrorLine x)) (printed a)\<rparr>)
      | Return err a \<Rightarrow>
          (Inr err, w\<lparr>files := (files w)(zipFileName := Inr (zip_bytes env (entries a))),
                      trace := trace w @ map (\<lambda>x. Printed (ErrorLine x)) (printed a)\<rparr>))"

definition upload_block_q :: "environment \<Rightarrow> arguments \<Rightarrow> Connection \<Rightarrow> unit step" where
  "upload_block_q env args c =
     andthen (assert_string (arg_appid args)) (\<lambda>appid.
     andthen (invoke env c (GetApp appid)) (\<lambda>r.
     let app = reply_app r; zipfilename = Name app @ ''.zip'' in
     andthen (exec_zip env zipfilename (Name app)) (\<lambda>err.
     andthen (check err) (\<lambda>_.
     andthen (ioutil_ReadFile zipfilename) (\<lambda>(bytes, err).
     andthen (check err) (\<lambda>_.
     andthen (invoke env c (CreateAppVersion appid bytes)) (\<lambda>r2.
     andthen (Printf (ResultMap (reply_result r2))) (\<lambda>_. return_from_main))))))))"

definition upload_block_part_000 :: "environment \<Rightarrow> arguments \<Rightarrow> Connection \<Rightarrow> unit step" where
  "upload_block_part_000 env args c =
     andthen (assert_string (arg_appid args)) (\<lambda>appid.
     andthen (invoke env c (GetApp appid)) (\<lambda>r.
     let app = reply_app r; zipfilename = Name app @ ''.zip'' in
     andthen (os_Remove zipfilename) (\<lambda>_.
     andthen (run_createAppArchive env appid zipfilename) (\<lambda>err.
     andthen (ioutil_ReadFile zipfilename) (\<lambda>(bytes, err).
     andthen (check err) (\<lambda>_.
     andthen (invoke env c (CreateAppVersion appid bytes)) (\<lambda>r2.
     andthen (Printf (ResultMap (reply_result r2))) (\<lambda>_. return_from_main))))))))"

text \<open>
  \<^verbatim>\<open>start\<close>, \<^verbatim>\<open>stop\<close> and \<^verbatim>\<open>delete\<close> have one shape: a type switch on
  \<^verbatim>\<open>arguments["<versionid>"]\<close> chooses the method for a version or the one for the
  application; the value either returns is dropped and the result map is printed.
\<close>

definition scoped_block ::
    "environment \<Rightarrow> arguments \<Rightarrow> Connection \<Rightarrow> (string \<Rightarrow> call) \<Rightarrow> (string \<Rightarrow> string \<Rightarrow> call) \<Rightarrow>
     unit step" where
  "scoped_block env args c for_app for_version =
     andthen (assert_string (arg_appid args)) (\<lambda>appid.
     case arg_versionid args of
       Some versionid \<Rightarrow>
         andthen (invoke env c (for_version appid versionid)) (\<lambda>r.
         andthen (Printf (ResultMap (reply_result r))) (\<lambda>_. return_from_main))
     | None \<Rightarrow>
         andthen (invoke env c (for_app appid)) (\<lambda>r.
         andthen (Printf (ResultMap (reply_result r))) (\<lambda>_. return_from_main)))"

text \<open>\<^verbatim>\<open>restart\<close>, in \<^verbatim>\<open>src/unnamed/part_000\<close> only: stop, print, start, print.\<close>

definition restart_block :: "environment \<Rightarrow> arguments \<Rightarrow> Connection \<Rightarrow> unit step" where
  "restart_block env args c =
     andthen (assert_string (arg_appid args)) (\<lambda>appid.
     case arg_versionid args of
       Some versionid \<Rightarrow>
         andthen (invoke env c (StopAppVersion appid versionid)) (\<lambda>r.
         andthen (Printf (ResultMap (reply_result r))) (\<lambda>_.
         andthen (invoke env c (StartAppVersion appid versionid)) (\<lambda>r2.
         andthen (Printf (ResultMap (reply_result r2))) (\<lambda>_. return_from_main))))
     | None \<Rightarrow>
         andthen (invoke env c (StopApp appid)) (\<lambda>r.
         andthen (Printf (ResultMap (reply_result r))) (\<lambda>_.
         andthen (invoke env c (StartApp appid)) (\<lambda>r2.
         andthen (Printf (ResultMap (reply_result r2))) (\<lambda>_. return_from_main)))))"

subsection \<open>\<^verbatim>\<open>main\<close> of \<^verbatim>\<open>src/q.go\<close> and of \<^verbatim>\<open>src/unnamed/part_000\<close>\<close>

definition finish :: "(status + unit) \<times> world \<Rightarrow> status \<times> world" where
  "finish r = (case r of (Inl st, w) \<Rightarrow> (st, w) | (Inr u, w) \<Rightarrow> (Returned, w))"

definition main_q :: "environment \<Rightarrow> arguments \<Rightarrow> world \<Rightarrow> status \<times> world" where
  "main_q env args w = finish
     (andthen (if arg_connect args then connect_block env args else read_connection_q env) (\<lambda>c.
        if arg_list args then list_block_q env c
        else if arg_show args then show_block_q env args c
        else if arg_create args then create_block env args c
        else if arg_upload args then upload_block_q env args c
        else if arg_start args then scoped_block env args c StartApp StartAppVersion
        else if arg_stop args then scoped_block env args c StopApp StopAppVersion
        else if arg_delete args then scoped_block env args c DeleteApp DeleteAppVersion
        else Printf (ArgumentsMap args)) w)"

definition main_part_000 :: "environment \<Rightarrow> arguments \<Rightarrow> world \<Rightarrow> status \<times> world" where
  "main_part_000 env args w = finish
     (andthen (if arg_connect args then connect_block env args
               else read_connection_part_000 env) (\<lambda>c.
        if arg_list args then list_block_part_000 env c
        else if arg_show args then show_block_part_000 env args c
        else if arg_create args then create_block env args c
        else if arg_upload args then upload_block_part_000 env args c
        else if arg_start args then scoped_block env args c StartApp StartAppVersion
        else if arg_stop args then scoped_block env args c StopApp StopAppVersion
        else if arg_restart args then restart_block env args c
        else if arg_delete args then scoped_block env args c DeleteApp DeleteAppVersion
        else Printf (ArgumentsMap args)) w)"

text \<open>The invocations of the collaborator in a trace, in their order.\<close>

fun invocations :: "event list \<Rightarrow> call list" where
  "invocations [] = []"
| "invocations (Called c k # evs) = k # invocations evs"
| "invocations (ev # evs) = invocations evs"

section \<open>What the claims speak about\<close>

subsection \<open>The objects of a tree and their traversal paths\<close>

text \<open>
  \<open>listing root tree\<close> pairs every object of the tree with the path under which the
  traversal reaches it: the root under the path given, a child under
  \<^verbatim>\<open>Join(path of its directory, name)\<close>. It visits the children of every directory, also
  of one whose path is excluded.
\<close>

function listing :: "string \<Rightarrow> node \<Rightarrow> (string \<times> node) list"
  and listing_names :: "string \<Rightarrow> (string \<times> node) list \<Rightarrow> (string \<times> node) list"
where
  "listing path (Directory cs) = (path, Directory cs) # listing_names path (sort_key fst cs)"
| "listing path (UnreadableDir e) = [(path, UnreadableDir e)]"
| "listing path (RegularFile c) = [(path, RegularFile c)]"
| "listing path (BrokenRead c e) = [(path, BrokenRead c e)]"
| "listing path (Unopenable e) = [(path, Unopenable e)]"
| "listing path (Unstatable e) = [(path, Unstatable e)]"
| "listing path Irregular = [(path, Irregular)]"
| "listing_names path [] = []"
| "listing_names path ((name, child) # rest) =
     listing (Join path name) child @ listing_names path rest"
  by pat_completeness auto
termination
  by (relation "measure (case_sum (\<lambda>(p, n). size n)
                                  (\<lambda>(p, cs). size_list (size_prod (\<lambda>_. 0) size) cs))")
     (auto simp: size_list_sort_key)

text \<open>The entry an object should contribute: a regular file whose path is not excluded.\<close>

fun selected :: "string \<times> node \<Rightarrow> (string \<times> string) list" where
  "selected (p, RegularFile c) = (if MatchString patternToExclude p then [] else [(p, c)])"
| "selected (p, n) = []"

text \<open>A tree in which every object can be opened, examined and read to its end.\<close>

fun readable :: "node \<Rightarrow> bool" where
  "readable (RegularFile c) = True"
| "readable Irregular = True"
| "readable (Directory cs) = (\<forall>x \<in> set cs. readable (snd x))"
| "readable n = False"

text \<open>A tree without any file: directories only, nested to any depth.\<close>

fun only_dirs :: "node \<Rightarrow> bool" where
  "only_dirs (Directory cs) = (\<forall>x \<in> set cs. only_dirs (snd x))"
| "only_dirs n = False"

text \<open>
  A tree as a file system has it: in every directory the names are distinct, and each is a
  file name (not empty, without separator, neither \<^verbatim>\<open>.\<close> nor \<^verbatim>\<open>..\<close>).
\<close>

definition proper_name :: "string \<Rightarrow> bool" where
  "proper_name n \<longleftrightarrow> n \<noteq> [] \<and> CHR ''/'' \<notin> set n \<and> n \<noteq> ''.'' \<and> n \<noteq> ''..''"

fun proper_names :: "node \<Rightarrow> bool" where
  "proper_names (Directory cs) =
     (distinct (map fst cs) \<and> (\<forall>x \<in> set cs. proper_name (fst x) \<and> proper_names (snd x)))"
| "proper_names n = True"

subsection \<open>The cleaned form of a path\<close>

text \<open>Stacks that cleaning produces (newest element first).\<close>

inductive clean_stack :: "bool \<Rightarrow> string list \<Rightarrow> bool" for rooted :: bool where
  empty: "clean_stack rooted []"
| dotdot: "\<not> rooted \<Longrightarrow> set st \<subseteq> {''..''} \<Longrightarrow> clean_stack rooted (''..'' # st)"
| proper: "clean_stack rooted st \<Longrightarrow> proper_name e \<Longrightarrow> clean_stack rooted (e # st)"

definition elems :: "bool \<Rightarrow> string \<Rightarrow> string list" where
  "elems rooted p = foldl (clean_elem rooted) [] (split_path p)"

definition form :: "bool \<Rightarrow> string list \<Rightarrow> string" where
  "form rooted st =
     (if rooted then CHR ''/'' # join_sep (rev st)
      else if join_sep (rev st) = [] then ''.'' else join_sep (rev st))"

text \<open>The cleaned form of a path: whether it is rooted, and its elements.\<close>

definition base :: "string \<Rightarrow> bool \<times> string list" where
  "base p = (if p = [] then (False, []) else (hd p = CHR ''/'', elems (hd p = CHR ''/'') p))"

text \<open>An archive none of whose entries has an excluded name.\<close>

definition no_excluded_entry :: "archive \<Rightarrow> bool" where
  "no_excluded_entry w \<longleftrightarrow> (\<forall>e \<in> set (entries w). \<not> MatchString patternToExclude (fst e))"

subsection \<open>The language of a regular expression\<close>

inductive_set kleene_star :: "string set \<Rightarrow> string set" for A :: "string set" where
  star_empty: "[] \<in> kleene_star A"
| star_step: "a \<in> A \<Longrightarrow> b \<in> kleene_star A \<Longrightarrow> a @ b \<in> kleene_star A"

fun lang :: "regex \<Rightarrow> string set" where
  "lang (Lit c) = {[c]}"
| "lang AnyCharNotNL = (\<lambda>c. [c]) ` {c. c \<noteq> CHR 0x0A}"
| "lang (Star r) = kleene_star (lang r)"
| "lang (Concat r1 r2) = (\<lambda>(a, b). a @ b) ` (lang r1 \<times> lang r2)"
| "lang (Alternate r1 r2) = lang r1 \<union> lang r2"
| "lang (Capture r) = lang r"
| "lang EmptyMatch = {[]}"

subsection \<open>The exclusion rule in the words of the spec\<close>

text \<open>
  The spec describes the rule as: the path contains \<^verbatim>\<open>.DS_Store\<close>, or contains a \<^verbatim>\<open>.git\<close>,
  \<^verbatim>\<open>.bzr\<close> or \<^verbatim>\<open>.hg\<close> directory segment anywhere beneath a top-level \<^verbatim>\<open>go\<close> directory,
  or equals a \<^verbatim>\<open>go/pkg\<close> or \<^verbatim>\<open>go/bin\<close> subtree. It is read here in its widest sense: the
  \<^verbatim>\<open>go\<close> segment may stand at any depth of the path (the spec's own scenario has it below
  \<^verbatim>\<open>app/\<close>), and a subtree is the directory and everything below it.
\<close>

fun has_prefix :: "string \<Rightarrow> string \<Rightarrow> bool" where
  "has_prefix s [] = True"
| "has_prefix [] (p # ps) = False"
| "has_prefix (c # cs) (p # ps) = (c = p \<and> has_prefix cs ps)"

fun contains :: "string \<Rightarrow> string \<Rightarrow> bool" where
  "contains [] sub = (sub = [])"
| "contains (c # cs) sub = (has_prefix (c # cs) sub \<or> contains cs sub)"

fun vcs_beneath_go :: "string list \<Rightarrow> bool" where
  "vcs_beneath_go [] = False"
| "vcs_beneath_go (seg # segs) =
     ((seg = ''go'' \<and> (\<exists>t \<in> set segs. t = ''.git'' \<or> t = ''.bzr'' \<or> t = ''.hg''))
      \<or> vcs_beneath_go segs)"

fun go_subtree :: "string list \<Rightarrow> bool" where
  "go_subtree (seg # nxt # segs) =
     ((seg = ''go'' \<and> (nxt = ''pkg'' \<or> nxt = ''bin'')) \<or> go_subtree (nxt # segs))"
| "go_subtree segs = False"

definition spec_exclusion :: "string \<Rightarrow> bool" where
  "spec_exclusion path \<longleftrightarrow>
     contains path ''.DS_Store''
     \<or> vcs_beneath_go (split_path path)
     \<or> go_subtree (split_path path)"

subsection \<open>Runs of the dispatcher\<close>

text \<open>A step that only adds events to the trace.\<close>

definition extends :: "'a step \<Rightarrow> bool" where
  "extends m \<longleftrightarrow> (\<forall>w. \<exists>evs. trace (snd (m w)) = trace w @ evs)"

text \<open>
  The methods a run of either \<^verbatim>\<open>main\<close> invokes, and the method an operation on an
  application or on one of its versions stands for.
\<close>

definition invocations_q :: "environment \<Rightarrow> arguments \<Rightarrow> world \<Rightarrow> call list" where
  "invocations_q env args w = invocations (trace (snd (main_q env args w)))"

definition invocations_part_000 :: "environment \<Rightarrow> arguments \<Rightarrow> world \<Rightarrow> call list" where
  "invocations_part_000 env args w = invocations (trace (snd (main_part_000 env args w)))"

fun scoped :: "(string \<Rightarrow> call) \<Rightarrow> (string \<Rightarrow> string \<Rightarrow> call) \<Rightarrow> string \<Rightarrow> string option \<Rightarrow> call" where
  "scoped for_app for_version appid None = for_app appid"
| "scoped for_app for_version appid (Some versionid) = for_version appid versionid"

section \<open>Sample inputs\<close>

definition no_faults :: zip_env where
  "no_faults = \<lparr>osCreate_err = (\<lambda>_. None), wCreate_err = (\<lambda>_. None), wClose_err = None\<rparr>"

text \<open>The directory \<^verbatim>\<open>app/\<close> of the scenario, with files of the given contents.\<close>

definition app_tree :: "string \<Rightarrow> string \<Rightarrow> string \<Rightarrow> node" where
  "app_tree main_go head ds_store =
     Directory [(''main.go'', RegularFile main_go),
                (''.git'', Directory [(''HEAD'', RegularFile head)]),
                (''.DS_Store'', RegularFile ds_store)]"

text \<open>Sample runs of the dispatcher.\<close>

definition no_arguments :: arguments where
  "no_arguments = \<lparr>arg_connect = False, arg_list = False, arg_show = False, arg_create = False,
     arg_upload = False, arg_start = False, arg_stop = False, arg_restart = False,
     arg_delete = False, arg_service = None, opt_u = None, opt_p = None, arg_appid = None,
     arg_appname = None, arg_versionid = None\<rparr>"

definition ok_reply :: reply where
  "ok_reply = \<lparr>reply_err = None, reply_apps = [], reply_app = \<lparr>Name = ''app'', Rendered = []\<rparr>,
     reply_result = ''map[ok:true]''\<rparr>"

definition sample_env :: environment where
  "sample_env = \<lparr>HOME = ''/home/op'',
     json_Marshal = (\<lambda>c. Inr (''{'' @ Service c @ '','' @ Credentials c @ ''}'')),
     json_Unmarshal = (\<lambda>b. \<lparr>Service = ''http://agent'', Credentials = ''op:secret''\<rparr>),
     yaml_Unmarshal = (\<lambda>b. \<lparr>Name = ''app'', Rendered = b\<rparr>),
     WriteFile_err = (\<lambda>name. None),
     remote = (\<lambda>c k. ok_reply),
     tree_at = (\<lambda>p. app_tree ''m'' ''h'' ''d''),
     zip_writer = no_faults,
     zip_bytes = (\<lambda>es. concat (map (\<lambda>(n, b). n @ b) es)),
     zip_program = (\<lambda>z n. Inr ''PK'')\<rparr>"

text \<open>The same, with a collaborator that answers every invocation with an error.\<close>

definition refusing_env :: environment where
  "refusing_env = sample_env\<lparr>remote :=
     (\<lambda>c k. \<lparr>reply_err = Some (Err ''connection refused''), reply_apps = [],
              reply_app = \<lparr>Name = [], Rendered = []\<rparr>, reply_result = ''map[]''\<rparr>)\<rparr>"

text \<open>A world in which the connection record and a manifest exist.\<close>

definition sample_world :: world where
  "sample_world = \<lparr>files = (\<lambda>name.
       if name = ''/home/op/.agent.json'' then Inr ''{http://agent,op:secret}''
       else if name = ''app/app.yaml'' then Inr ''name: app''
       else Inl (Err ''no such file or directory'')),
     trace = []\<rparr>"

definition empty_world :: world where
  "empty_world = \<lparr>files = (\<lambda>name. Inl (Err ''no such file or directory'')), trace = []\<rparr>"

section \<open>Evaluation rules\<close>

lemmas builder_defs =
  rmatch_Star createAppArchive_def Walk_def walkFn_def NewWriter_def w_Create_def w_Close_def
  append_last_def Println_def patternToExclude_def exclusionPattern_def under_go_def
  Join_def Clean_def clean_elem_def

lemmas step_defs =
  andthen_def yield_def return_from_main_def emit_def check_def assert_string_def fmt_v_def
  ioutil_ReadFile_def ioutil_WriteFile_def os_Remove_def invoke_def Printf_def
  credentialsFileName_def finish_def

lemmas block_defs =
  connect_block_def read_connection_q_def read_connection_part_000_def list_block_q_def
  list_block_part_000_def show_block_q_def show_block_part_000_def create_block_def
  exec_zip_def run_createAppArchive_def upload_block_q_def upload_block_part_000_def
  scoped_block_def restart_block_def

lemmas sample_defs =
  no_arguments_def ok_reply_def sample_env_def refusing_env_def sample_world_def empty_world_def

section \<open>The scenario of the spec\<close>

text \<open>
  C3, as stated: building from \<^verbatim>\<open>app/\<close>, which holds \<^verbatim>\<open>main.go\<close> (100 bytes), \<^verbatim>\<open>.git/HEAD\<close>
  (20 bytes) and \<^verbatim>\<open>.DS_Store\<close> (10 bytes), yields exactly one entry, \<^verbatim>\<open>app/main.go\<close>. It does
  not: the archive has another first entry, since \<^verbatim>\<open>app/.git/HEAD\<close> matches no alternative
  of the pattern (the version-control alternatives all begin with \<^verbatim>\<open>go/\<close>).
\<close>

theorem scenario_one_entry_counterexample:
  "map fst (entries (archive_of (createAppArchive no_faults
      (app_tree (replicate 100 CHR ''m'') (replicate 20 CHR ''h'') (replicate 10 CHR ''d''))
      ''app/'' ''app.zip'')))
   \<noteq> [''app/main.go'']"
  by (simp add: builder_defs no_faults_def app_tree_def)

text \<open>
  C3, amended: building from \<^verbatim>\<open>app/\<close> yields exactly two entries, \<^verbatim>\<open>app/.git/HEAD\<close> and
  \<^verbatim>\<open>app/main.go\<close> in this order, each with the contents of its file; \<^verbatim>\<open>app/.DS_Store\<close> is
  left out, the archive is closed and no error is returned.
\<close>

theorem scenario_two_entries:
  "createAppArchive no_faults (app_tree main_go head ds_store) ''app/'' ''app.zip'' =
     Return None \<lparr>entries = [(''app/.git/HEAD'', head), (''app/main.go'', main_go)],
                  buf_ok = True, closed = True, printed = []\<rparr>"
  by (simp add: builder_defs no_faults_def app_tree_def)

section \<open>The matcher and the language of an expression\<close>

lemma rmatch_Lit_iff: "t \<in> set (rmatch (Lit c) s) \<longleftrightarrow> (\<exists>m \<in> lang (Lit c). s = m @ t)"
proof (cases s)
  case Nil
  then show ?thesis by simp
next
  case (Cons x xs)
  then show ?thesis by simp blast
qed

lemma rmatch_AnyCharNotNL_iff:
  "t \<in> set (rmatch AnyCharNotNL s) \<longleftrightarrow> (\<exists>m \<in> lang AnyCharNotNL. s = m @ t)"
proof (cases s)
  case Nil
  then show ?thesis by (simp add: image_iff)
next
  case (Cons x xs)
  then show ?thesis by (simp add: image_iff) blast
qed

lemma kleene_star_first:
  "m \<in> kleene_star A \<Longrightarrow>
     m = [] \<or> (\<exists>a b. a \<in> A \<and> a \<noteq> [] \<and> b \<in> kleene_star A \<and> m = a @ b)"
proof (induction rule: kleene_star.induct)
  case star_empty
  show ?case by simp
next
  case (star_step a b)
  show ?case
  proof (cases "a = []")
    case True
    with star_step.IH show ?thesis by simp
  next
    case False
    with star_step.hyps show ?thesis by blast
  qed
qed

lemma rmatch_Star_iff:
  "t \<in> set (rmatch (Star r) s) \<longleftrightarrow>
     t = s \<or> (\<exists>t1 \<in> set (rmatch r s). length t1 < length s \<and> t \<in> set (rmatch (Star r) t1))"
  by (subst rmatch.simps) auto

lemma rmatch_Star_lang:
  assumes r: "\<And>s t. t \<in> set (rmatch r s) \<longleftrightarrow> (\<exists>m \<in> lang r. s = m @ t)"
  shows "t \<in> set (rmatch (Star r) s) \<longleftrightarrow> (\<exists>m \<in> lang (Star r). s = m @ t)"
proof (induction s arbitrary: t rule: length_induct)
  case (1 s)
  let ?L = "lang r"
  have IH: "u \<in> set (rmatch (Star r) t1) \<longleftrightarrow> (\<exists>m \<in> kleene_star ?L. t1 = m @ u)"
    if "length t1 < length s" for t1 u
    using "1.IH" that by simp
  show ?case
  proof
    assume "t \<in> set (rmatch (Star r) s)"
    then have "t = s \<or> (\<exists>t1 \<in> set (rmatch r s). length t1 < length s \<and>
        t \<in> set (rmatch (Star r) t1))"
      by (subst (asm) rmatch_Star_iff)
    then show "\<exists>m \<in> lang (Star r). s = m @ t"
    proof (elim disjE bexE conjE)
      assume "t = s"
      then have eq: "s = [] @ t" by simp
      show ?thesis by (rule bexI [where x = "[]"]) (rule eq, simp add: star_empty)
    next
      fix t1
      assume t1: "t1 \<in> set (rmatch r s)" and shorter: "length t1 < length s"
        and t': "t \<in> set (rmatch (Star r) t1)"
      from t1 obtain a where a: "a \<in> ?L" "s = a @ t1" unfolding r by (rule bexE)
      from t' obtain b where b: "b \<in> kleene_star ?L" "t1 = b @ t"
        unfolding IH [OF shorter] by (rule bexE)
      from a b have ab: "a @ b \<in> lang (Star r)" and eq: "s = (a @ b) @ t"
        by (simp_all add: star_step)
      show ?thesis by (rule bexI [where x = "a @ b"]) (rule eq, rule ab)
    qed
  next
    assume "\<exists>m \<in> lang (Star r). s = m @ t"
    then obtain m where m: "m \<in> kleene_star ?L" and s: "s = m @ t" by auto
    from kleene_star_first [OF m]
    show "t \<in> set (rmatch (Star r) s)"
    proof (elim disjE exE conjE)
      assume "m = []"
      with s show ?thesis by (subst rmatch_Star_iff) simp
    next
      fix a b
      assume a: "a \<in> ?L" and ne: "a \<noteq> []" and b: "b \<in> kleene_star ?L" and m': "m = a @ b"
      from s m' have s': "s = a @ (b @ t)" by simp
      have in_r: "b @ t \<in> set (rmatch r s)"
        unfolding r by (rule bexI [where x = a]) (rule s', rule a)
      from s' ne have shorter: "length (b @ t) < length s" by simp
      have "t \<in> set (rmatch (Star r) (b @ t))"
        unfolding IH [OF shorter] by (rule bexI [where x = b]) (rule refl, rule b)
      with in_r shorter show ?thesis
        by (subst rmatch_Star_iff) (rule disjI2, rule bexI [where x = "b @ t"], simp_all)
    qed
  qed
qed

lemma rmatch_Concat_lang:
  assumes r1: "\<And>s t. t \<in> set (rmatch r1 s) \<longleftrightarrow> (\<exists>m \<in> lang r1. s = m @ t)"
    and r2: "\<And>s t. t \<in> set (rmatch r2 s) \<longleftrightarrow> (\<exists>m \<in> lang r2. s = m @ t)"
  shows "t \<in> set (rmatch (Concat r1 r2) s) \<longleftrightarrow> (\<exists>m \<in> lang (Concat r1 r2). s = m @ t)"
proof -
  have "t \<in> set (rmatch (Concat r1 r2) s) \<longleftrightarrow> (\<exists>t1 \<in> set (rmatch r1 s). t \<in> set (rmatch r2 t1))"
    by simp
  also have "\<dots> \<longleftrightarrow> (\<exists>m \<in> lang (Concat r1 r2). s = m @ t)"
  proof
    assume "\<exists>t1 \<in> set (rmatch r1 s). t \<in> set (rmatch r2 t1)"
    then obtain t1 where t1: "t1 \<in> set (rmatch r1 s)" and t: "t \<in> set (rmatch r2 t1)"
      by (rule bexE)
    from t1 obtain a where a: "a \<in> lang r1" "s = a @ t1" unfolding r1 by (rule bexE)
    from t obtain b where b: "b \<in> lang r2" "t1 = b @ t" unfolding r2 by (rule bexE)
    have "(a, b) \<in> lang r1 \<times> lang r2" using a(1) b(1) by simp
    then have mem: "a @ b \<in> lang (Concat r1 r2)"
      unfolding lang.simps by (rule image_eqI [rotated]) simp
    have eq: "s = (a @ b) @ t" using a(2) b(2) by simp
    show "\<exists>m \<in> lang (Concat r1 r2). s = m @ t"
      by (rule bexI [where x = "a @ b"]) (rule eq, rule mem)
  next
    assume "\<exists>m \<in> lang (Concat r1 r2). s = m @ t"
    then obtain m where m: "m \<in> lang (Concat r1 r2)" and s: "s = m @ t" by (rule bexE)
    from m obtain a b where ab: "m = a @ b" "a \<in> lang r1" "b \<in> lang r2"
      unfolding lang.simps by (elim imageE) (simp split: prod.splits)
    from s ab(1) have s': "s = a @ (b @ t)" by simp
    have t1: "b @ t \<in> set (rmatch r1 s)"
      unfolding r1 by (rule bexI [where x = a]) (rule s', rule ab(2))
    have "t \<in> set (rmatch r2 (b @ t))"
      unfolding r2 by (rule bexI [where x = b]) (rule refl, rule ab(3))
    with t1 show "\<exists>t1 \<in> set (rmatch r1 s). t \<in> set (rmatch r2 t1)" by (rule bexI [rotated])
  qed
  finally show ?thesis .
qed

lemma rmatch_lang: "t \<in> set (rmatch r s) \<longleftrightarrow> (\<exists>m \<in> lang r. s = m @ t)"
proof (induction r arbitrary: s t)
  case (Lit c)
  show ?case by (rule rmatch_Lit_iff)
next
  case AnyCharNotNL
  show ?case by (rule rmatch_AnyCharNotNL_iff)
next
  case (Star r)
  then show ?case by (rule rmatch_Star_lang)
next
  case (Concat r1 r2)
  then show ?case by (rule rmatch_Concat_lang)
next
  case (Alternate r1 r2)
  have "t \<in> set (rmatch (Alternate r1 r2) s) \<longleftrightarrow>
        t \<in> set (rmatch r1 s) \<or> t \<in> set (rmatch r2 s)" by simp
  also have "\<dots> \<longleftrightarrow> (\<exists>m \<in> lang r1. s = m @ t) \<or> (\<exists>m \<in> lang r2. s = m @ t)"
    by (simp only: Alternate)
  also have "\<dots> \<longleftrightarrow> (\<exists>m \<in> lang (Alternate r1 r2). s = m @ t)"
    by (simp only: lang.simps bex_Un)
  finally show ?case .
next
  case (Capture r)
  then show ?case by simp
next
  case EmptyMatch
  show ?case by simp blast
qed

lemma rmatch_nonempty_lang: "rmatch r s \<noteq> [] \<longleftrightarrow> (\<exists>m v. m \<in> lang r \<and> s = m @ v)"
proof -
  have "rmatch r s \<noteq> [] \<longleftrightarrow> (\<exists>t. t \<in> set (rmatch r s))"
    by (cases "rmatch r s") auto
  also have "\<dots> \<longleftrightarrow> (\<exists>m v. m \<in> lang r \<and> s = m @ v)"
    unfolding rmatch_lang by blast
  finally show ?thesis .
qed

lemma MatchString_lang: "MatchString r s \<longleftrightarrow> (\<exists>u m v. m \<in> lang r \<and> s = u @ m @ v)"
proof (induction s)
  case Nil
  show ?case unfolding MatchString.simps rmatch_nonempty_lang by simp
next
  case (Cons c cs)
  have "(\<exists>u m v. m \<in> lang r \<and> c # cs = u @ m @ v) \<longleftrightarrow>
        (\<exists>m v. m \<in> lang r \<and> c # cs = m @ v) \<or> (\<exists>u m v. m \<in> lang r \<and> cs = u @ m @ v)"
    (is "?all \<longleftrightarrow> ?first \<or> ?later")
  proof
    assume ?all
    then obtain u m v where m: "m \<in> lang r" and eq: "c # cs = u @ m @ v" by (elim exE conjE)
    show "?first \<or> ?later"
    proof (cases u)
      case Nil
      with eq have "c # cs = m @ v" by simp
      with m show ?thesis by (intro disjI1 exI conjI)
    next
      case (Cons x u')
      with eq have "cs = u' @ m @ v" by simp
      with m show ?thesis by (intro disjI2 exI conjI)
    qed
  next
    assume "?first \<or> ?later"
    then show ?all
    proof
      assume ?first
      then obtain m v where "m \<in> lang r" "c # cs = [] @ m @ v" by (elim exE conjE) simp
      then show ?all by (intro exI conjI)
    next
      assume ?later
      then obtain u m v where "m \<in> lang r" "c # cs = (c # u) @ m @ v" by (elim exE conjE) simp
      then show ?all by (intro exI conjI)
    qed
  qed
  then show ?case unfolding MatchString.simps rmatch_nonempty_lang Cons.IH by simp
qed

lemma lang_literal: "lang (literal l) = {l}"
  by (induction l) simp_all

lemma kleene_star_no_newline:
  "m \<in> kleene_star (lang AnyCharNotNL) \<longleftrightarrow> CHR 0x0A \<notin> set m"
proof
  assume "m \<in> kleene_star (lang AnyCharNotNL)"
  then show "CHR 0x0A \<notin> set m"
    by (induction rule: kleene_star.induct) auto
next
  assume "CHR 0x0A \<notin> set m"
  then show "m \<in> kleene_star (lang AnyCharNotNL)"
  proof (induction m)
    case Nil
    show ?case by (rule star_empty)
  next
    case (Cons c cs)
    then have "[c] \<in> lang AnyCharNotNL" and "cs \<in> kleene_star (lang AnyCharNotNL)" by auto
    then have "[c] @ cs \<in> kleene_star (lang AnyCharNotNL)" by (rule star_step)
    then show ?case by simp
  qed
qed

lemma in_lang_Concat:
  "m \<in> lang (Concat r1 r2) \<longleftrightarrow> (\<exists>a \<in> lang r1. \<exists>b \<in> lang r2. m = a @ b)"
  by (auto simp: image_iff)

lemma bex_lang_AnyCharNotNL:
  "(\<exists>a \<in> lang AnyCharNotNL. P a) \<longleftrightarrow> (\<exists>c. c \<noteq> CHR 0x0A \<and> P [c])"
  by simp

lemma bex_lang_Star_AnyCharNotNL:
  "(\<exists>a \<in> lang (Star AnyCharNotNL). P a) \<longleftrightarrow> (\<exists>x. CHR 0x0A \<notin> set x \<and> P x)"
  unfolding lang.simps(3) using kleene_star_no_newline by blast

lemma bex_lang_literal: "(\<exists>a \<in> lang (literal l). P a) \<longleftrightarrow> P l"
  by (simp add: lang_literal)

lemma bex_lang_Lit: "(\<exists>a \<in> lang (Lit c). P a) \<longleftrightarrow> P [c]"
  by simp

lemma bex_lang_Concat:
  "(\<exists>m \<in> lang (Concat r1 r2). P m) \<longleftrightarrow> (\<exists>a \<in> lang r1. \<exists>b \<in> lang r2. P (a @ b))"
  by (auto simp: image_iff)

lemma lang_under_go:
  "m \<in> lang (under_go vcs) \<longleftrightarrow>
     (\<exists>x c. CHR 0x0A \<notin> set x \<and> c \<noteq> CHR 0x0A \<and> m = ''go/'' @ x @ CHR ''/'' # c # vcs)"
proof -
  have "m \<in> lang (under_go vcs) \<longleftrightarrow>
      (\<exists>x. CHR 0x0A \<notin> set x \<and> (\<exists>c. c \<noteq> CHR 0x0A \<and> m = ''go/'' @ x @ [CHR ''/''] @ [c] @ vcs))"
    by (simp only: under_go_def in_lang_Concat bex_lang_Concat bex_lang_literal
        bex_lang_Star_AnyCharNotNL bex_lang_AnyCharNotNL bex_lang_Lit)
  then show ?thesis by simp
qed

lemma lang_ds_store:
  "m \<in> lang (Concat AnyCharNotNL (literal ''DS_Store'')) \<longleftrightarrow>
     (\<exists>c. c \<noteq> CHR 0x0A \<and> m = c # ''DS_Store'')"
proof -
  have "m \<in> lang (Concat AnyCharNotNL (literal ''DS_Store'')) \<longleftrightarrow>
      (\<exists>c. c \<noteq> CHR 0x0A \<and> m = [c] @ ''DS_Store'')"
    by (simp only: in_lang_Concat bex_lang_literal bex_lang_AnyCharNotNL)
  then show ?thesis by simp
qed

lemma one_of_three: "(\<exists>v. v \<in> {a, b, c} \<and> Q v) \<longleftrightarrow> Q a \<or> Q b \<or> Q c"
  by blast

lemma lang_exclusionPattern:
  "m \<in> lang exclusionPattern \<longleftrightarrow>
     (\<exists>c. c \<noteq> CHR 0x0A \<and> m = c # ''DS_Store'')
   \<or> (\<exists>vcs. vcs \<in> {''git'', ''bzr'', ''hg''} \<and>
         (\<exists>x c. CHR 0x0A \<notin> set x \<and> c \<noteq> CHR 0x0A \<and> m = ''go/'' @ x @ CHR ''/'' # c # vcs))
   \<or> m = ''go/pkg'' \<or> m = ''go/bin''"
proof -
  have "m \<in> lang exclusionPattern \<longleftrightarrow>
      m \<in> lang (Concat AnyCharNotNL (literal ''DS_Store''))
    \<or> (m \<in> lang (under_go ''git'') \<or> m \<in> lang (under_go ''bzr'') \<or> m \<in> lang (under_go ''hg''))
    \<or> m \<in> lang (literal ''go/pkg'') \<or> m \<in> lang (literal ''go/bin'')"
    unfolding exclusionPattern_def by (simp only: lang.simps(5,6) Un_iff disj_assoc)
  also have "\<dots> \<longleftrightarrow>
      (\<exists>c. c \<noteq> CHR 0x0A \<and> m = c # ''DS_Store'')
    \<or> (\<exists>vcs. vcs \<in> {''git'', ''bzr'', ''hg''} \<and> m \<in> lang (under_go vcs))
    \<or> m = ''go/pkg'' \<or> m = ''go/bin''"
    by (simp only: one_of_three lang_ds_store lang_literal singleton_iff)
  finally show ?thesis by (simp only: lang_under_go)
qed

section \<open>The walk, step by step\<close>

lemma io_Copy_buf_ok: "buf_ok (fst (io_Copy fi w)) = buf_ok w"
  by (cases "(fi, w)" rule: io_Copy.cases) (auto simp: append_last_def split: list.splits)

lemma walkFn_buf_ok: "buf_ok (archive_of (walkFn env p n e w)) = buf_ok w"
  using io_Copy_buf_ok [of "fst (os_Open n)" "w\<lparr>entries := entries w @ [(p, [])]\<rparr>"]
  by (auto simp: walkFn_def w_Create_def Println_def
           split: prod.splits option.splits FileMode.splits)

lemma walk_buf_ok:
  "fn = walkFn env \<Longrightarrow> buf_ok (archive_of (walk fn path t w)) = buf_ok w"
  "fn = walkFn env \<Longrightarrow> buf_ok (archive_of (walk_names fn path cs w)) = buf_ok w"
proof (induction fn path t w and fn path cs w rule: walk_walk_names.induct)
  case (1 fn path cs w)
  then show ?case
    using walkFn_buf_ok [of env path "Directory cs" None w]
    by (auto split: outcome.splits option.splits)
next
  case (9 fn path name child rest w)
  then show ?case by (auto split: outcome.splits option.splits)
qed (simp_all add: walkFn_buf_ok)

lemma walkFn_by_kind:
  "walkFn env p n e w =
     (if MatchString patternToExclude p then Return e w
      else case n of
        RegularFile c \<Rightarrow>
          (case wCreate_err env p of
             Some x \<Rightarrow> Fatal x w
           | None \<Rightarrow> Return e (w\<lparr>entries := entries w @ [(p, c)]\<rparr>))
      | BrokenRead c x \<Rightarrow>
          (case wCreate_err env p of
             Some x \<Rightarrow> Fatal x w
           | None \<Rightarrow> Return e (w\<lparr>entries := entries w @ [(p, c)]\<rparr>))
      | Unopenable x \<Rightarrow> Return (Some ErrInvalid) (Println ErrInvalid w)
      | Unstatable x \<Rightarrow> Return (Some x) (Println x w)
      | Irregular \<Rightarrow> Return e w
      | Directory cs \<Rightarrow> Return e w
      | UnreadableDir x \<Rightarrow> Return (Some ErrInvalid) (Println ErrInvalid w))"
  by (cases n) (simp_all add: walkFn_def w_Create_def append_last_def split: option.splits)

lemma walkFn_Return_any_env:
  "walkFn env p n e w = Return r w' \<Longrightarrow> walkFn no_faults p n e w = Return r w'"
  by (cases n) (simp_all add: walkFn_by_kind no_faults_def split: if_splits option.splits)

lemma walk_Return_any_env:
  "fn = walkFn env \<Longrightarrow> walk fn path t w = Return r w' \<Longrightarrow>
     walk (walkFn no_faults) path t w = Return r w'"
  "fn = walkFn env \<Longrightarrow> walk_names fn path cs w = Return r w' \<Longrightarrow>
     walk_names (walkFn no_faults) path cs w = Return r w'"
proof (induction fn path t w and fn path cs w arbitrary: r w' and r w' rule: walk_walk_names.induct)
  case (1 fn path cs w)
  note fn = \<open>fn = walkFn env\<close>
  note run = \<open>walk fn path (Directory cs) w = Return r w'\<close>
  show ?case
  proof (cases "fn path (Directory cs) None w")
    case (Return e1 w1)
    with fn have same: "walkFn no_faults path (Directory cs) None w = Return e1 w1"
      by (simp add: walkFn_Return_any_env)
    show ?thesis
    proof (cases e1)
      case None
      with run Return have "walk_names fn path (sort_key fst cs) w1 = Return r w'"
        by simp
      with "1.IH" [OF Return None fn] have "walk_names (walkFn no_faults) path (sort_key fst cs) w1 = Return r w'"
        by blast
      with same None show ?thesis by simp
    next
      case (Some x)
      with run Return have "r = Some x" and "w' = w1" by auto
      with same Some show ?thesis by simp
    qed
  next
    case (Fatal x w1)
    with run show ?thesis by simp
  qed
next
  case (9 fn path name child rest w)
  note fn = \<open>fn = walkFn env\<close>
  note run = \<open>walk_names fn path ((name, child) # rest) w = Return r w'\<close>
  show ?case
  proof (cases "walk fn (Join path name) child w")
    case (Return e1 w1)
    with "9.IH"(1) [OF fn] have same: "walk (walkFn no_faults) (Join path name) child w = Return e1 w1"
      by blast
    show ?thesis
    proof (cases e1)
      case None
      with run Return have "walk_names fn path rest w1 = Return r w'"
        by simp
      with "9.IH"(2) [OF Return None fn] have "walk_names (walkFn no_faults) path rest w1 = Return r w'"
        by blast
      with same None show ?thesis by simp
    next
      case (Some x)
      with run Return have "r = Some x" and "w' = w1" by auto
      with same Some show ?thesis by simp
    qed
  next
    case (Fatal x w1)
    with run show ?thesis by simp
  qed
qed (simp_all add: walkFn_Return_any_env)

lemma io_Copy_closed: "closed (fst (io_Copy fi w)) = closed w"
  by (cases "(fi, w)" rule: io_Copy.cases) (auto simp: append_last_def split: list.splits)

lemma walkFn_closed: "closed (archive_of (walkFn env p n e w)) = closed w"
  by (cases n) (simp_all add: walkFn_by_kind Println_def split: option.splits)

lemma walk_closed:
  "fn = walkFn env \<Longrightarrow> closed (archive_of (walk fn path t w)) = closed w"
  "fn = walkFn env \<Longrightarrow> closed (archive_of (walk_names fn path cs w)) = closed w"
proof (induction fn path t w and fn path cs w rule: walk_walk_names.induct)
  case (1 fn path cs w)
  then show ?case
    using walkFn_closed [of env path "Directory cs" None w]
    by (auto split: outcome.splits option.splits)
next
  case (9 fn path name child rest w)
  then show ?case by (auto split: outcome.splits option.splits)
qed (simp_all add: walkFn_closed)

section \<open>Traversal paths are distinct\<close>

lemma selected_set:
  "set (concat (map selected xs)) =
     {(p, c). (p, RegularFile c) \<in> set xs \<and> \<not> MatchString patternToExclude p}"
proof (induction xs)
  case Nil
  show ?case by simp
next
  case (Cons x xs)
  obtain p n where x: "x = (p, n)" by (cases x)
  have "set (selected (p, n)) =
      {(q, c). (q, RegularFile c) = (p, n) \<and> \<not> MatchString patternToExclude q}"
    by (cases n) auto
  with Cons x show ?case by auto
qed

lemma split_path_nonempty: "split_path p \<noteq> []"
  by (induction p) (auto split: list.splits)

lemma split_path_no_slash: "CHR ''/'' \<notin> set n \<Longrightarrow> split_path n = [n]"
  by (induction n) auto

lemma split_path_append:
  "split_path (p @ CHR ''/'' # q) = split_path p @ split_path q"
proof (induction p)
  case Nil
  show ?case by simp
next
  case (Cons c cs)
  show ?case
  proof (cases "split_path cs")
    case Nil
    with split_path_nonempty show ?thesis by blast
  next
    case (Cons s ss)
    with Cons.IH show ?thesis by simp
  qed
qed

lemma split_path_slash_free: "s \<in> set (split_path p) \<Longrightarrow> CHR ''/'' \<notin> set s"
proof (induction p arbitrary: s)
  case Nil
  then show ?case by simp
next
  case (Cons c cs)
  show ?case
  proof (cases "split_path cs")
    case Nil
    with split_path_nonempty show ?thesis by blast
  next
    case (Cons t ts)
    with Cons.prems Cons.IH show ?thesis by (auto split: if_splits)
  qed
qed

lemma split_path_join_sep:
  "xs \<noteq> [] \<Longrightarrow> \<forall>x \<in> set xs. CHR ''/'' \<notin> set x \<Longrightarrow> split_path (join_sep xs) = xs"
proof (induction xs rule: join_sep.induct)
  case 1
  then show ?case by simp
next
  case (2 s)
  then show ?case by (simp add: split_path_no_slash)
next
  case (3 s t ss)
  then show ?case by (simp add: split_path_append split_path_no_slash)
qed

lemma Clean_form: "p \<noteq> [] \<Longrightarrow> Clean p = form (hd p = CHR ''/'') (elems (hd p = CHR ''/'') p)"
  by (simp add: Clean_def form_def elems_def Let_def)

lemma dotdots_clean: "\<not> rooted \<Longrightarrow> set st \<subseteq> {''..''} \<Longrightarrow> clean_stack rooted st"
  by (cases st) (auto intro: clean_stack.intros)

lemma clean_stack_tail: "clean_stack rooted (e # st) \<Longrightarrow> clean_stack rooted st"
  by (erule clean_stack.cases) (auto intro: dotdots_clean)

lemma clean_stack_dotdot_top:
  "clean_stack rooted (''..'' # st) \<Longrightarrow> \<not> rooted \<and> set st \<subseteq> {''..''}"
  by (erule clean_stack.cases) (auto simp: proper_name_def)

lemma clean_elem_clean:
  assumes "clean_stack rooted st" and "CHR ''/'' \<notin> set e"
  shows "clean_stack rooted (clean_elem rooted st e)"
proof -
  consider "e = [] \<or> e = ''.''" | "e = ''..''" | "proper_name e"
    using assms(2) by (auto simp: proper_name_def)
  then show ?thesis
  proof cases
    case 1
    with assms show ?thesis by (auto simp: clean_elem_def)
  next
    case 2
    show ?thesis
    proof (cases st)
      case Nil
      with 2 show ?thesis by (auto simp: clean_elem_def intro: clean_stack.intros)
    next
      case (Cons e0 rest)
      show ?thesis
      proof (cases "e0 = ''..''")
        case True
        with assms(1) Cons have "clean_stack rooted (''..'' # rest)" by simp
        then have "\<not> rooted \<and> set rest \<subseteq> {''..''}"
          by (rule clean_stack_dotdot_top)
        with True Cons 2 show ?thesis
          by (auto simp: clean_elem_def intro!: clean_stack.dotdot)
      next
        case False
        from assms(1) Cons have "clean_stack rooted rest" by (auto dest: clean_stack_tail)
        with False Cons 2 show ?thesis by (simp add: clean_elem_def)
      qed
    qed
  next
    case 3
    with assms(1) have "clean_stack rooted (e # st)" by (intro clean_stack.proper)
    moreover from 3 have "clean_elem rooted st e = e # st"
      by (auto simp: clean_elem_def proper_name_def)
    ultimately show ?thesis by simp
  qed
qed

lemma foldl_clean_elem_clean:
  "clean_stack rooted st \<Longrightarrow> \<forall>e \<in> set es. CHR ''/'' \<notin> set e \<Longrightarrow>
     clean_stack rooted (foldl (clean_elem rooted) st es)"
  by (induction es arbitrary: st) (simp_all add: clean_elem_clean)

lemma elems_clean: "clean_stack rooted (elems rooted p)"
  unfolding elems_def
  by (rule foldl_clean_elem_clean) (auto intro: clean_stack.empty dest: split_path_slash_free)

lemma clean_elem_dotdot:
  "set st \<subseteq> {''..''} \<Longrightarrow> clean_elem False st ''..'' = ''..'' # st"
  by (cases st) (auto simp: clean_elem_def)

lemma clean_elem_proper: "proper_name e \<Longrightarrow> clean_elem rooted st e = e # st"
  by (auto simp: clean_elem_def proper_name_def)

text \<open>Writing the elements of a clean stack again, oldest first, gives the stack back.\<close>

lemma replay_dotdots:
  "set st \<subseteq> {''..''} \<Longrightarrow> foldl (clean_elem False) [] (rev st) = st"
proof (induction st)
  case Nil
  show ?case by simp
next
  case (Cons a st)
  then have a: "a = ''..''" and st: "set st \<subseteq> {''..''}" by auto
  from Cons.IH [OF st] have "foldl (clean_elem False) [] (rev (a # st)) = clean_elem False st a"
    by simp
  with a st show ?case by (simp only: clean_elem_dotdot)
qed

lemma replay_clean_stack:
  "clean_stack rooted st \<Longrightarrow> foldl (clean_elem rooted) [] (rev st) = st"
proof (induction rule: clean_stack.induct)
  case empty
  show ?case by simp
next
  case (dotdot st)
  then have "set (''..'' # st) \<subseteq> {''..''}" by simp
  then have "foldl (clean_elem False) [] (rev (''..'' # st)) = ''..'' # st"
    by (rule replay_dotdots)
  with dotdot(1) show ?case by simp
next
  case (proper st e)
  then have "foldl (clean_elem rooted) [] (rev (e # st)) = clean_elem rooted st e" by simp
  with proper show ?case by (simp only: clean_elem_proper)
qed

lemma clean_stack_elems:
  "clean_stack rooted st \<Longrightarrow> e \<in> set st \<Longrightarrow> e \<noteq> [] \<and> CHR ''/'' \<notin> set e"
  by (induction rule: clean_stack.induct) (auto simp: proper_name_def)

lemma join_sep_head: "x \<noteq> [] \<Longrightarrow> join_sep (x # xs) \<noteq> [] \<and> hd (join_sep (x # xs)) = hd x"
  by (cases xs) simp_all

lemma join_sep_clean:
  assumes "clean_stack rooted st" and "st \<noteq> []"
  shows "join_sep (rev st) \<noteq> []" and "hd (join_sep (rev st)) \<noteq> CHR ''/''"
proof -
  from assms(2) obtain x xs where xs: "rev st = x # xs" by (cases "rev st") auto
  then have "x \<in> set st" by (metis list.set_intros(1) set_rev)
  with assms(1) have x: "x \<noteq> []" "CHR ''/'' \<notin> set x" by (auto dest: clean_stack_elems)
  from join_sep_head [OF x(1), of xs] xs
  show "join_sep (rev st) \<noteq> []" by simp
  from x have "hd x \<noteq> CHR ''/''" by (cases x) auto
  with join_sep_head [OF x(1), of xs] xs
  show "hd (join_sep (rev st)) \<noteq> CHR ''/''" by simp
qed

lemma form_clean:
  assumes "clean_stack rooted st" and "st \<noteq> []"
  shows "form rooted st \<noteq> []"
    and "(hd (form rooted st) = CHR ''/'') = rooted"
    and "elems rooted (form rooted st) = st"
proof -
  note j = join_sep_clean [OF assms]
  show "form rooted st \<noteq> []" using j by (simp add: form_def)
  show "(hd (form rooted st) = CHR ''/'') = rooted" using j by (simp add: form_def)
  have slash_free: "\<forall>x \<in> set (rev st). CHR ''/'' \<notin> set x"
    using assms(1) by (auto dest: clean_stack_elems)
  from assms(2) have ne: "rev st \<noteq> []" by simp
  have split: "split_path (join_sep (rev st)) = rev st"
    using ne slash_free by (rule split_path_join_sep)
  have replay: "foldl (clean_elem rooted) [] (rev st) = st"
    using assms(1) by (rule replay_clean_stack)
  show "elems rooted (form rooted st) = st"
  proof (cases rooted)
    case True
    then have "elems rooted (form rooted st) =
        foldl (clean_elem rooted) (clean_elem rooted [] []) (split_path (join_sep (rev st)))"
      by (simp add: elems_def form_def)
    also have "clean_elem rooted [] [] = []" by (simp add: clean_elem_def)
    finally show ?thesis using split replay by simp
  next
    case False
    with j have "form rooted st = join_sep (rev st)" by (simp add: form_def)
    then show ?thesis using split replay by (simp add: elems_def)
  qed
qed

lemma base_clean: "base p = (r, st) \<Longrightarrow> clean_stack r st"
  by (auto simp: base_def elems_clean intro: clean_stack.empty split: if_splits)

lemma base_form:
  "clean_stack r st \<Longrightarrow> st \<noteq> [] \<Longrightarrow> base (form r st) = (r, st)"
  by (simp add: base_def form_clean)

lemma Join_form:
  assumes "proper_name n" and "base p = (r, st)"
  shows "Join p n = form r (n # st)"
proof (cases "p = []")
  case True
  from assms(1) have n: "n \<noteq> []" "CHR ''/'' \<notin> set n" by (auto simp: proper_name_def)
  then have hd: "hd n \<noteq> CHR ''/''" by (cases n) auto
  from n have "elems False n = clean_elem False [] n"
    by (simp add: elems_def split_path_no_slash)
  also have "\<dots> = [n]" using assms(1) by (rule clean_elem_proper)
  finally have "Clean n = form False [n]" using n hd by (simp add: Clean_form)
  with True n assms(2) show ?thesis by (simp add: Join_def base_def)
next
  case False
  from assms(1) have n: "CHR ''/'' \<notin> set n" by (auto simp: proper_name_def)
  from False assms(2) have r: "r = (hd p = CHR ''/'')" and st: "st = elems r p"
    by (auto simp: base_def)
  let ?q = "p @ CHR ''/'' # n"
  from False have hd: "hd ?q = hd p" by (cases p) auto
  have "elems r ?q = clean_elem r (elems r p) n"
    using n by (simp add: elems_def split_path_append split_path_no_slash)
  also have "\<dots> = n # st" using assms(1) st by (simp add: clean_elem_proper)
  finally have "Clean ?q = form r (n # st)" using r hd by (simp add: Clean_form)
  with False show ?thesis by (simp add: Join_def)
qed

lemma base_Join:
  assumes "proper_name n" and "base p = (r, st)"
  shows "base (Join p n) = (r, n # st)"
proof -
  from assms(2) have "clean_stack r st" by (rule base_clean)
  with assms(1) have "clean_stack r (n # st)" by (intro clean_stack.proper)
  then have "base (form r (n # st)) = (r, n # st)" by (rule base_form) simp
  with Join_form [OF assms] show ?thesis by simp
qed

lemma distinct_map_fst_sort_key:
  "distinct (map fst cs) \<Longrightarrow> distinct (map fst (sort_key fst cs))"
proof (induction cs)
  case Nil
  show ?case by simp
next
  case (Cons c cs)
  then have "distinct (map fst (sort_key fst cs))" and "fst c \<notin> fst ` set cs" by auto
  then show ?case by (simp add: distinct_insort_key)
qed

lemma base_itself: "base path = (r, st) \<Longrightarrow> \<exists>more. base path = (r, more @ st)"
  by (rule exI [of _ "[]"]) simp

lemma listing_bases:
  "proper_names t \<Longrightarrow> base p = (r, st) \<Longrightarrow>
     distinct (map (\<lambda>x. base (fst x)) (listing p t))
     \<and> (\<forall>x \<in> set (listing p t). \<exists>more. base (fst x) = (r, more @ st))"
  "distinct (map fst cs) \<Longrightarrow> \<forall>x \<in> set cs. proper_name (fst x) \<and> proper_names (snd x) \<Longrightarrow>
   base p = (r, st) \<Longrightarrow>
     distinct (map (\<lambda>x. base (fst x)) (listing_names p cs))
     \<and> (\<forall>x \<in> set (listing_names p cs).
           \<exists>more n. n \<in> fst ` set cs \<and> base (fst x) = (r, more @ n # st))"
proof (induction p t and p cs arbitrary: st and st rule: listing_listing_names.induct)
  case (1 path cs)
  let ?cs = "sort_key fst cs"
  from "1.prems"(1) have d: "distinct (map fst ?cs)"
    and pn: "\<forall>x \<in> set ?cs. proper_name (fst x) \<and> proper_names (snd x)"
    by (simp_all add: distinct_map_fst_sort_key)
  from "1.IH" [OF d pn "1.prems"(2)]
  have dist: "distinct (map (\<lambda>x. base (fst x)) (listing_names path ?cs))"
    and below: "\<forall>x \<in> set (listing_names path ?cs).
        \<exists>more n. n \<in> fst ` set ?cs \<and> base (fst x) = (r, more @ n # st)"
    by simp_all
  have "base path \<notin> (\<lambda>x. base (fst x)) ` set (listing_names path ?cs)"
  proof
    assume "base path \<in> (\<lambda>x. base (fst x)) ` set (listing_names path ?cs)"
    then obtain x where "x \<in> set (listing_names path ?cs)" "base (fst x) = base path"
      by auto
    with below "1.prems"(2) obtain more n where "(r, st) = (r, more @ n # st)" by metis
    then have "length st = length (more @ n # st)" by simp
    then show False by simp
  qed
  moreover have "\<exists>more. base path = (r, more @ st)"
    using "1.prems"(2) by (intro exI [of _ "[]"]) simp
  moreover have "\<exists>more. base (fst x) = (r, more @ st)"
    if "x \<in> set (listing_names path ?cs)" for x
  proof -
    from below that obtain more n where "base (fst x) = (r, more @ n # st)" by blast
    then have "base (fst x) = (r, (more @ [n]) @ st)" by simp
    then show ?thesis by (rule exI)
  qed
  ultimately show ?case using dist by simp
next
  case (8 path)
  show ?case by simp
next
  case (9 path name child rest)
  from "9.prems"(2) have name: "proper_name name" and child: "proper_names child"
    and rest: "\<forall>x \<in> set rest. proper_name (fst x) \<and> proper_names (snd x)"
    by simp_all
  from "9.prems"(1) have fresh: "name \<notin> fst ` set rest" and d: "distinct (map fst rest)"
    by simp_all
  have b: "base (Join path name) = (r, name # st)"
    using name "9.prems"(3) by (rule base_Join)
  from "9.IH"(1) [OF child b]
  have d1: "distinct (map (\<lambda>x. base (fst x)) (listing (Join path name) child))"
    and s1: "\<forall>x \<in> set (listing (Join path name) child).
        \<exists>more. base (fst x) = (r, more @ name # st)"
    by simp_all
  from "9.IH"(2) [OF d rest "9.prems"(3)]
  have d2: "distinct (map (\<lambda>x. base (fst x)) (listing_names path rest))"
    and s2: "\<forall>x \<in> set (listing_names path rest).
        \<exists>more n. n \<in> fst ` set rest \<and> base (fst x) = (r, more @ n # st)"
    by simp_all
  have apart: "base (fst x) \<noteq> base (fst y)"
    if x: "x \<in> set (listing (Join path name) child)"
      and y: "y \<in> set (listing_names path rest)" for x y
  proof
    assume eq: "base (fst x) = base (fst y)"
    from s1 x obtain more where 1: "base (fst x) = (r, more @ name # st)" by blast
    from s2 y obtain more' n where n: "n \<in> fst ` set rest"
      and 2: "base (fst y) = (r, more' @ n # st)" by blast
    from eq 1 2 have "(more @ [name]) @ st = (more' @ [n]) @ st" by simp
    then have "more @ [name] = more' @ [n]" by (simp only: append_same_eq)
    then have "name = n" by simp
    with n fresh show False by simp
  qed
  have "(\<lambda>x. base (fst x)) ` set (listing (Join path name) child)
      \<inter> (\<lambda>x. base (fst x)) ` set (listing_names path rest) = {}"
  proof -
    have False
      if "v \<in> (\<lambda>x. base (fst x)) ` set (listing (Join path name) child)"
        and "v \<in> (\<lambda>x. base (fst x)) ` set (listing_names path rest)" for v
    proof -
      from that obtain x y where "x \<in> set (listing (Join path name) child)"
        "y \<in> set (listing_names path rest)" "v = base (fst x)" "v = base (fst y)"
        by blast
      with apart [of x y] show False by simp
    qed
    then show ?thesis by blast
  qed
  with d1 d2 have dist: "distinct (map (\<lambda>x. base (fst x))
      (listing (Join path name) child @ listing_names path rest))"
    by (simp add: distinct_append)
  have shape: "\<exists>more n. n \<in> fst ` set ((name, child) # rest) \<and> base (fst x) = (r, more @ n # st)"
    if "x \<in> set (listing (Join path name) child @ listing_names path rest)" for x
  proof -
    from that consider "x \<in> set (listing (Join path name) child)"
      | "x \<in> set (listing_names path rest)" by auto
    then show ?thesis
    proof cases
      case 1
      with s1 obtain more where "base (fst x) = (r, more @ name # st)" by blast
      then show ?thesis by (intro exI [of _ more] exI [of _ name]) simp
    next
      case 2
      with s2 obtain more n where "n \<in> fst ` set rest" "base (fst x) = (r, more @ n # st)"
        by blast
      then show ?thesis by (intro exI [of _ more] exI [of _ n]) simp
    qed
  qed
  from dist shape show ?case by simp
qed (simp_all add: base_itself)

lemma distinct_listing_paths:
  assumes "proper_names t"
  shows "distinct (map fst (listing p t))"
proof -
  obtain r st where "base p = (r, st)" by (cases "base p")
  with assms have "distinct (map (\<lambda>x. base (fst x)) (listing p t))"
    by (simp add: listing_bases(1))
  then have "distinct (map base (map fst (listing p t)))" by (simp add: comp_def)
  then show ?thesis by (rule distinct_map [THEN iffD1, THEN conjunct1])
qed

lemma selected_fst: "e \<in> set (selected x) \<Longrightarrow> fst e = fst x"
  by (cases x rule: selected.cases) (simp_all split: if_splits)

lemma selected_names:
  "e \<in> set (concat (map selected xs)) \<Longrightarrow> fst e \<in> fst ` set xs"
proof (induction xs)
  case Nil
  then show ?case by simp
next
  case (Cons x xs)
  from Cons.prems consider "e \<in> set (selected x)" | "e \<in> set (concat (map selected xs))"
    by auto
  then show ?case
  proof cases
    case 1
    then have "fst e = fst x" by (rule selected_fst)
    then show ?thesis by simp
  next
    case 2
    then have "fst e \<in> fst ` set xs" by (rule Cons.IH)
    then show ?thesis by simp
  qed
qed

lemma distinct_selected:
  "distinct (map fst xs) \<Longrightarrow> distinct (map fst (concat (map selected xs)))"
proof (induction xs)
  case Nil
  show ?case by simp
next
  case (Cons x xs)
  obtain p n where x: "x = (p, n)" by (cases x)
  from Cons.prems x have fresh: "p \<notin> fst ` set xs" and d: "distinct (map fst xs)" by simp_all
  from Cons.IH [OF d] have IH: "distinct (map fst (concat (map selected xs)))" .
  have not_in: "p \<notin> fst ` set (concat (map selected xs))"
  proof
    assume "p \<in> fst ` set (concat (map selected xs))"
    then obtain e where "e \<in> set (concat (map selected xs))" "p = fst e" by (rule imageE)
    with selected_names [of e xs] fresh show False by simp
  qed
  show ?case
  proof (cases "selected (p, n)")
    case Nil
    with x IH show ?thesis by simp
  next
    case (Cons e es)
    then have "selected (p, n) = [(p, snd e)]"
      by (cases n) (auto split: if_splits)
    with x IH not_in show ?thesis by simp
  qed
qed

section \<open>Which files the archive holds\<close>

lemma walk_readable:
  "readable t \<Longrightarrow> \<forall>p. wCreate_err env p = None \<Longrightarrow> fn = walkFn env \<Longrightarrow>
     walk fn path t w =
       Return None (w\<lparr>entries := entries w @ concat (map selected (listing path t))\<rparr>)"
  "\<forall>x \<in> set cs. readable (snd x) \<Longrightarrow> \<forall>p. wCreate_err env p = None \<Longrightarrow> fn = walkFn env \<Longrightarrow>
     walk_names fn path cs w =
       Return None (w\<lparr>entries := entries w @ concat (map selected (listing_names path cs))\<rparr>)"
proof (induction fn path t w and fn path cs w rule: walk_walk_names.induct)
  case (1 fn path cs w)
  then show ?case by (simp add: walkFn_by_kind)
next
  case (3 fn path c w)
  then show ?case by (simp add: walkFn_by_kind)
next
  case (7 fn path w)
  then show ?case by (simp add: walkFn_by_kind)
next
  case (9 fn path name child rest w)
  then show ?case by simp
qed simp_all

text \<open>
  On a tree without faults the builder selects as it should: when every object of the tree
  can be opened, examined and read, and the zip writer
  meets no error, the builder returns no error and leaves a closed archive whose entries
  are, in the order of the traversal, one entry for every regular file whose traversal path
  the pattern does not match, named by that path and holding the bytes of the file. Hence
  the entries are exactly those files; directories and other objects contribute nothing.
  In a tree whose directories hold distinct file names no two entries have the same name.
\<close>

lemma archive_of_readable_tree:
  assumes "readable tree"
    and "osCreate_err env zipFileName = None"
    and "\<forall>p. wCreate_err env p = None"
    and "wClose_err env = None"
  shows "\<exists>w. createAppArchive env tree appName zipFileName = Return None w
           \<and> closed w
           \<and> entries w = concat (map selected (listing appName tree))
           \<and> set (entries w) =
               {(p, c). (p, RegularFile c) \<in> set (listing appName tree)
                        \<and> \<not> MatchString patternToExclude p}
           \<and> (proper_names tree \<longrightarrow> distinct (map fst (entries w)))"
proof -
  let ?es = "concat (map selected (listing appName tree))"
  have "walk (walkFn env) appName tree (NewWriter True) =
      Return None ((NewWriter True)\<lparr>entries := entries (NewWriter True) @ ?es\<rparr>)"
    using assms(1,3) by (rule walk_readable(1)) simp
  with assms(2,4) have run: "createAppArchive env tree appName zipFileName =
      Return None \<lparr>entries = ?es, buf_ok = True, closed = True, printed = []\<rparr>"
    by (simp add: createAppArchive_def Walk_def NewWriter_def w_Close_def)
  have once: "proper_names tree \<longrightarrow> distinct (map fst ?es)"
    by (intro impI distinct_selected distinct_listing_paths)
  from run once show ?thesis using selected_set [of "listing appName tree"] by simp
qed

lemma archive_of_readable_tree_example:
  "readable (app_tree ''package main'' ''ref: refs/heads/master'' ''Bud1'')
   \<and> proper_names (app_tree ''package main'' ''ref: refs/heads/master'' ''Bud1'')
   \<and> (\<exists>w. createAppArchive no_faults (app_tree ''package main'' ''ref: refs/heads/master'' ''Bud1'')
              ''app/'' ''app.zip'' = Return None w
          \<and> closed w
          \<and> entries w = [(''app/.git/HEAD'', ''ref: refs/heads/master''), (''app/main.go'', ''package main'')]
          \<and> distinct (map fst (entries w)))"
proof -
  let ?t = "app_tree ''package main'' ''ref: refs/heads/master'' ''Bud1''"
  have r: "readable ?t" by (simp add: app_tree_def)
  have pn: "proper_names ?t" by (simp add: app_tree_def proper_name_def)
  have l: "concat (map selected (listing ''app/'' ?t)) =
      [(''app/.git/HEAD'', ''ref: refs/heads/master''), (''app/main.go'', ''package main'')]"
    by (simp add: app_tree_def builder_defs)
  have h: "osCreate_err no_faults ''app.zip'' = None" "\<forall>p. wCreate_err no_faults p = None"
    "wClose_err no_faults = None"
    by (simp_all add: no_faults_def)
  from archive_of_readable_tree [OF r h, of "''app/''"]
  obtain w where w: "createAppArchive no_faults ?t ''app/'' ''app.zip'' = Return None w"
    "closed w" "entries w = concat (map selected (listing ''app/'' ?t))"
    "proper_names ?t \<longrightarrow> distinct (map fst (entries w))"
    by (elim exE conjE)
  from w(3) l have es: "entries w =
      [(''app/.git/HEAD'', ''ref: refs/heads/master''), (''app/main.go'', ''package main'')]"
    by (rule trans)
  from w(4) pn have "distinct (map fst (entries w))" by (rule mp)
  with r pn w(1,2) es show ?thesis by (intro conjI exI [of _ w])
qed

text \<open>
  C1 says that for every directory tree the archive holds exactly the regular files whose
  paths the pattern does not match. The builder evaluated on the directory \<^verbatim>\<open>app\<close> with a
  file \<^verbatim>\<open>README\<close> that cannot be opened and a sound file \<^verbatim>\<open>main.go\<close>: the traversal stops
  at \<^verbatim>\<open>app/README\<close>, the builder closes the archive and returns \<^verbatim>\<open>nil\<close>, and the archive
  has no entry, although \<^verbatim>\<open>app/main.go\<close> is a regular file of the tree whose path is not
  excluded.
\<close>

theorem unopenable_file_leaves_regular_files_out:
  "createAppArchive no_faults
      (Directory [(''README'', Unopenable (Err ''permission denied'')),
                  (''main.go'', RegularFile ''package main'')])
      ''app'' ''app.zip'' =
     Return None \<lparr>entries = [], buf_ok = True, closed = True, printed = [ErrInvalid]\<rparr>
   \<and> concat (map selected (listing ''app''
      (Directory [(''README'', Unopenable (Err ''permission denied'')),
                  (''main.go'', RegularFile ''package main'')]))) =
     [(''app/main.go'', ''package main'')]"
  by (simp add: builder_defs no_faults_def)

section \<open>A tree without files\<close>

lemma walk_only_dirs:
  "only_dirs t \<Longrightarrow> fn = walkFn env \<Longrightarrow> walk fn path t w = Return None w"
  "\<forall>x \<in> set cs. only_dirs (snd x) \<Longrightarrow> fn = walkFn env \<Longrightarrow>
     walk_names fn path cs w = Return None w"
proof (induction fn path t w and fn path cs w rule: walk_walk_names.induct)
  case (1 fn path cs w)
  then show ?case by (simp add: walkFn_by_kind)
next
  case (9 fn path name child rest w)
  then show ?case by simp
qed simp_all

text \<open>
  C8: for a tree that holds no file (the empty directory, or directories nested in one
  another), when the output file can be created and closing the archive meets no error, the
  builder returns no error and the archive has no entry.
\<close>

theorem empty_tree_gives_empty_archive:
  assumes "only_dirs tree"
    and "osCreate_err env zipFileName = None"
    and "wClose_err env = None"
  shows "createAppArchive env tree appName zipFileName =
           Return None \<lparr>entries = [], buf_ok = True, closed = True, printed = []\<rparr>"
proof -
  have "walk (walkFn env) appName tree (NewWriter True) = Return None (NewWriter True)"
    using assms(1) by (rule walk_only_dirs(1)) simp
  with assms(2,3) show ?thesis
    by (simp add: createAppArchive_def Walk_def NewWriter_def w_Close_def)
qed

theorem empty_tree_gives_empty_archive_witness:
  "only_dirs (Directory []) \<and> osCreate_err no_faults ''app.zip'' = None \<and> wClose_err no_faults = None
   \<and> createAppArchive no_faults (Directory []) ''app'' ''app.zip'' =
        Return None \<lparr>entries = [], buf_ok = True, closed = True, printed = []\<rparr>"
proof -
  have h: "only_dirs (Directory [])" "osCreate_err no_faults ''app.zip'' = None"
    "wClose_err no_faults = None"
    by (simp_all add: no_faults_def)
  from empty_tree_gives_empty_archive [OF h] h show ?thesis by simp
qed

section \<open>Two runs over the same tree\<close>

lemma createAppArchive_Return:
  assumes "createAppArchive env tree appName zipFileName = Return r w"
  shows "\<exists>e. walk (walkFn no_faults) appName tree (NewWriter True) = Return e (w\<lparr>closed := False\<rparr>)
           \<and> closed w"
proof -
  let ?w0 = "NewWriter (osCreate_err env zipFileName = None)"
  from assms obtain e w1 where run: "walk (walkFn env) appName tree ?w0 = Return e w1"
    and close: "w_Close env w1 = (w, None)"
    by (auto simp: createAppArchive_def Walk_def split: outcome.splits prod.splits option.splits)
  from close have ok: "buf_ok w1" and w: "w = w1\<lparr>closed := True\<rparr>"
    by (auto simp: w_Close_def split: if_splits option.splits)
  from walk_buf_ok(1) [OF refl, of env appName tree ?w0] run
  have "buf_ok ?w0 = buf_ok w1" by simp
  with ok have w0: "?w0 = NewWriter True" by (simp add: NewWriter_def)
  from walk_closed(1) [OF refl, of env appName tree ?w0] run
  have "closed w1 = False" by (simp add: NewWriter_def)
  with w have "w\<lparr>closed := False\<rparr> = w1" by simp
  moreover from walk_Return_any_env(1) [OF refl run] w0
  have "walk (walkFn no_faults) appName tree (NewWriter True) = Return e w1" by simp
  ultimately show ?thesis using w by simp
qed

text \<open>
  C9: two runs of the builder over the same tree and root path, each of which returns,
  leave the same entries (names and contents, in the same order), whatever the name and the
  earlier state of the output file and whatever else differs between the two runs.
\<close>

theorem two_runs_same_entries:
  assumes "createAppArchive env1 tree appName zipFileName1 = Return r1 w1"
    and "createAppArchive env2 tree appName zipFileName2 = Return r2 w2"
  shows "entries w1 = entries w2"
proof -
  from createAppArchive_Return [OF assms(1)] createAppArchive_Return [OF assms(2)]
  have "w1\<lparr>closed := False\<rparr> = w2\<lparr>closed := False\<rparr>" by auto
  then have "entries (w1\<lparr>closed := False\<rparr>) = entries (w2\<lparr>closed := False\<rparr>)" by simp
  then show ?thesis by simp
qed

theorem two_runs_same_entries_witness:
  "createAppArchive no_faults (app_tree ''package main'' ''ref'' ''Bud1'') ''app/'' ''app.zip'' =
     Return None \<lparr>entries = [(''app/.git/HEAD'', ''ref''), (''app/main.go'', ''package main'')],
                  buf_ok = True, closed = True, printed = []\<rparr>
   \<and> createAppArchive
       (no_faults\<lparr>wCreate_err := (\<lambda>p. if p = ''app/.DS_Store'' then Some (Err ''full'') else None)\<rparr>)
       (app_tree ''package main'' ''ref'' ''Bud1'') ''app/'' ''other.zip'' =
     Return None \<lparr>entries = [(''app/.git/HEAD'', ''ref''), (''app/main.go'', ''package main'')],
                  buf_ok = True, closed = True, printed = []\<rparr>"
proof -
  let ?t = "app_tree ''package main'' ''ref'' ''Bud1''"
  let ?env2 = "no_faults\<lparr>wCreate_err :=
      (\<lambda>p. if p = ''app/.DS_Store'' then Some (Err ''full'') else None)\<rparr>"
  let ?w = "\<lparr>entries = [(''app/.git/HEAD'', ''ref''), (''app/main.go'', ''package main'')],
             buf_ok = True, closed = True, printed = []\<rparr>"
  have run1: "createAppArchive no_faults ?t ''app/'' ''app.zip'' = Return None ?w"
    by (simp add: builder_defs no_faults_def app_tree_def)
  have "\<exists>w2. createAppArchive ?env2 ?t ''app/'' ''other.zip'' = Return None w2
           \<and> buf_ok w2 \<and> closed w2 \<and> printed w2 = []"
    by (simp add: builder_defs no_faults_def app_tree_def)
  then obtain w2 where run2: "createAppArchive ?env2 ?t ''app/'' ''other.zip'' = Return None w2"
    and rest: "buf_ok w2" "closed w2" "printed w2 = []"
    by (elim exE conjE)
  from two_runs_same_entries [OF run1 run2] have "entries w2 = entries ?w" by simp
  with rest have "w2 = ?w" by simp
  with run1 run2 show ?thesis by simp
qed

section \<open>I/O errors during a build\<close>

text \<open>
  C4 says that any error while opening, examining or copying a file is fatal to the
  whole operation. The builder evaluated on two small trees below \<^verbatim>\<open>app\<close>: a file \<^verbatim>\<open>a\<close>
  whose read fails after two bytes, followed by a sound file \<^verbatim>\<open>b\<close>; and a file \<^verbatim>\<open>a\<close> that
  cannot be opened, followed by \<^verbatim>\<open>b\<close>. In the first run the error of \<^verbatim>\<open>io.Copy\<close> is lost,
  the truncated entry stays and the run goes on; in the second the traversal stops, the
  error is printed, \<^verbatim>\<open>b\<close> is left out. Both runs close the archive and return \<^verbatim>\<open>nil\<close>.
\<close>

theorem io_errors_are_not_fatal:
  "createAppArchive no_faults
      (Directory [(''a'', BrokenRead ''xy'' (Err ''read error'')), (''b'', RegularFile ''z'')])
      ''app'' ''app.zip'' =
     Return None \<lparr>entries = [(''app/a'', ''xy''), (''app/b'', ''z'')],
                  buf_ok = True, closed = True, printed = []\<rparr>
   \<and> createAppArchive no_faults
      (Directory [(''a'', Unopenable (Err ''permission denied'')), (''b'', RegularFile ''z'')])
      ''app'' ''app.zip'' =
     Return None \<lparr>entries = [], buf_ok = True, closed = True, printed = [ErrInvalid]\<rparr>"
  by (simp add: builder_defs no_faults_def)

section \<open>The exclusion rule\<close>

text \<open>
  C2, as stated: a path is excluded if and only if the predicate of the spec holds. A file
  named \<^verbatim>\<open>xDS_Store\<close> is excluded by the builder, though its path neither contains
  \<^verbatim>\<open>.DS_Store\<close> nor has a \<^verbatim>\<open>go\<close> segment: in the pattern the dot stands for any character.
\<close>

theorem exclusion_differs_from_spec_counterexample:
  "MatchString patternToExclude ''app/xDS_Store'' \<and> \<not> spec_exclusion ''app/xDS_Store''"
  by (simp add: patternToExclude_def exclusionPattern_def under_go_def rmatch_Star
      spec_exclusion_def)

lemma MatchString_patternToExclude:
  "MatchString patternToExclude p \<longleftrightarrow>
     (\<exists>u m v. m \<in> lang exclusionPattern \<and> p = u @ m @ v)"
  unfolding patternToExclude_def by (rule MatchString_lang)

lemma excluded_ds_store:
  assumes "c \<noteq> CHR 0x0A"
  shows "MatchString patternToExclude (u @ c # ''DS_Store'' @ v)"
proof -
  from assms have "c # ''DS_Store'' \<in> lang exclusionPattern"
    unfolding lang_exclusionPattern by (intro disjI1 exI [of _ c] conjI refl)
  moreover have "u @ c # ''DS_Store'' @ v = u @ (c # ''DS_Store'') @ v" by simp
  ultimately show ?thesis unfolding MatchString_patternToExclude by (intro exI conjI)
qed

lemma excluded_under_go:
  assumes "vcs \<in> {''git'', ''bzr'', ''hg''}" and "CHR 0x0A \<notin> set x" and "c \<noteq> CHR 0x0A"
  shows "MatchString patternToExclude (u @ ''go/'' @ x @ CHR ''/'' # c # vcs @ v)"
proof -
  let ?m = "''go/'' @ x @ CHR ''/'' # c # vcs"
  from assms have "?m \<in> lang exclusionPattern"
    unfolding lang_exclusionPattern
    by (intro disjI2 disjI1 exI [of _ vcs] exI [of _ x] exI [of _ c] conjI refl)
  moreover have "u @ ''go/'' @ x @ CHR ''/'' # c # vcs @ v = u @ ?m @ v" by simp
  ultimately show ?thesis unfolding MatchString_patternToExclude by (intro exI conjI)
qed

lemma excluded_go_pkg: "MatchString patternToExclude (u @ ''go/pkg'' @ v)"
proof -
  have "''go/pkg'' \<in> lang exclusionPattern"
    unfolding lang_exclusionPattern by (intro disjI2 disjI1 refl)
  then show ?thesis unfolding MatchString_patternToExclude
    by (intro exI [of _ u] exI [of _ "''go/pkg''"] exI [of _ v]) simp
qed

lemma excluded_go_bin: "MatchString patternToExclude (u @ ''go/bin'' @ v)"
proof -
  have "''go/bin'' \<in> lang exclusionPattern"
    unfolding lang_exclusionPattern by (intro disjI2 refl)
  then show ?thesis unfolding MatchString_patternToExclude
    by (intro exI [of _ u] exI [of _ "''go/bin''"] exI [of _ v]) simp
qed

lemma excluded_iff:
  "MatchString patternToExclude p \<longleftrightarrow>
     (\<exists>u c v. c \<noteq> CHR 0x0A \<and> p = u @ c # ''DS_Store'' @ v)
   \<or> (\<exists>u x c vcs v. vcs \<in> {''git'', ''bzr'', ''hg''} \<and> CHR 0x0A \<notin> set x \<and> c \<noteq> CHR 0x0A \<and>
          p = u @ ''go/'' @ x @ CHR ''/'' # c # vcs @ v)
   \<or> (\<exists>u v. p = u @ ''go/pkg'' @ v) \<or> (\<exists>u v. p = u @ ''go/bin'' @ v)"
  (is "?lhs \<longleftrightarrow> ?ds \<or> ?vcs \<or> ?pkg \<or> ?bin")
proof
  assume ?lhs
  then obtain u m v where m: "m \<in> lang exclusionPattern" and p: "p = u @ m @ v"
    unfolding MatchString_patternToExclude by (elim exE conjE)
  from m [unfolded lang_exclusionPattern]
  show "?ds \<or> ?vcs \<or> ?pkg \<or> ?bin"
  proof (elim disjE exE conjE)
    fix c assume "c \<noteq> CHR 0x0A" "m = c # ''DS_Store''"
    with p have "c \<noteq> CHR 0x0A \<and> p = u @ c # ''DS_Store'' @ v" by simp
    then show ?thesis by (intro disjI1 exI)
  next
    fix vcs x c
    assume "vcs \<in> {''git'', ''bzr'', ''hg''}" "CHR 0x0A \<notin> set x" "c \<noteq> CHR 0x0A"
      "m = ''go/'' @ x @ CHR ''/'' # c # vcs"
    with p have "vcs \<in> {''git'', ''bzr'', ''hg''} \<and> CHR 0x0A \<notin> set x \<and> c \<noteq> CHR 0x0A \<and>
          p = u @ ''go/'' @ x @ CHR ''/'' # c # vcs @ v" by simp
    then show ?thesis by (intro disjI2 disjI1 exI)
  next
    assume "m = ''go/pkg''"
    with p have "p = u @ ''go/pkg'' @ v" by simp
    then show ?thesis by (intro disjI2 disjI1 exI)
  next
    assume "m = ''go/bin''"
    with p have "p = u @ ''go/bin'' @ v" by simp
    then show ?thesis by (intro disjI2 exI)
  qed
next
  assume "?ds \<or> ?vcs \<or> ?pkg \<or> ?bin"
  then show ?lhs
  proof (elim disjE exE conjE)
    fix u c v assume c: "c \<noteq> CHR 0x0A" and p: "p = u @ c # ''DS_Store'' @ v"
    show ?thesis unfolding p using c by (rule excluded_ds_store)
  next
    fix u x c vcs v
    assume h: "vcs \<in> {''git'', ''bzr'', ''hg''}" "CHR 0x0A \<notin> set x" "c \<noteq> CHR 0x0A"
      and p: "p = u @ ''go/'' @ x @ CHR ''/'' # c # vcs @ v"
    show ?thesis unfolding p using h by (rule excluded_under_go)
  next
    fix u v assume p: "p = u @ ''go/pkg'' @ v"
    show ?thesis unfolding p by (rule excluded_go_pkg)
  next
    fix u v assume p: "p = u @ ''go/bin'' @ v"
    show ?thesis unfolding p by (rule excluded_go_bin)
  qed
qed

lemma walkFn_no_excluded_entry:
  "no_excluded_entry w \<Longrightarrow> no_excluded_entry (archive_of (walkFn env p n e w))"
  by (cases n)
     (simp_all add: walkFn_by_kind Println_def no_excluded_entry_def split: option.splits)

lemma walk_no_excluded_entry:
  "fn = walkFn env \<Longrightarrow> no_excluded_entry w \<Longrightarrow>
     no_excluded_entry (archive_of (walk fn path t w))"
  "fn = walkFn env \<Longrightarrow> no_excluded_entry w \<Longrightarrow>
     no_excluded_entry (archive_of (walk_names fn path cs w))"
proof (induction fn path t w and fn path cs w rule: walk_walk_names.induct)
  case (1 fn path cs w)
  note fn = \<open>fn = walkFn env\<close>
  from 1 have step: "no_excluded_entry (archive_of (fn path (Directory cs) None w))"
    by (simp add: walkFn_no_excluded_entry)
  show ?case
  proof (cases "fn path (Directory cs) None w")
    case (Return e1 w1)
    with step have w1: "no_excluded_entry w1" by simp
    show ?thesis
    proof (cases e1)
      case None
      from "1.IH" [OF Return None fn w1] Return None show ?thesis by simp
    next
      case (Some x)
      with Return w1 show ?thesis by simp
    qed
  next
    case (Fatal x w1)
    with step show ?thesis by simp
  qed
next
  case (9 fn path name child rest w)
  note fn = \<open>fn = walkFn env\<close>
  from "9.IH"(1) [OF fn] 9
  have step: "no_excluded_entry (archive_of (walk fn (Join path name) child w))" by simp
  show ?case
  proof (cases "walk fn (Join path name) child w")
    case (Return e1 w1)
    with step have w1: "no_excluded_entry w1" by simp
    show ?thesis
    proof (cases e1)
      case None
      from "9.IH"(2) [OF Return None fn w1] Return None show ?thesis by simp
    next
      case (Some x)
      with Return w1 show ?thesis by simp
    qed
  next
    case (Fatal x w1)
    with step show ?thesis by simp
  qed
qed (simp_all add: walkFn_no_excluded_entry)

lemma createAppArchive_no_excluded_entry:
  "no_excluded_entry (archive_of (createAppArchive env tree appName zipFileName))"
proof -
  let ?w0 = "NewWriter (osCreate_err env zipFileName = None)"
  have "no_excluded_entry ?w0" by (simp add: no_excluded_entry_def NewWriter_def)
  then have walked: "no_excluded_entry (archive_of (walk (walkFn env) appName tree ?w0))"
    by (rule walk_no_excluded_entry(1) [OF refl])
  show ?thesis
  proof (cases "walk (walkFn env) appName tree ?w0")
    case (Return e w1)
    with walked have "no_excluded_entry w1" by simp
    then have "no_excluded_entry (fst (w_Close env w1))"
      by (simp add: w_Close_def no_excluded_entry_def split: option.splits)
    with Return show ?thesis
      by (cases "w_Close env w1")
         (auto simp: createAppArchive_def Walk_def split: option.splits)
  next
    case (Fatal x w1)
    with walked show ?thesis by (simp add: createAppArchive_def Walk_def)
  qed
qed

text \<open>
  C2, amended: the rule is an unanchored search for the pattern in the traversal path. A
  path is excluded if and only if some character other than a newline is directly followed
  by \<^verbatim>\<open>DS_Store\<close>; or the path contains \<^verbatim>\<open>go/\<close>, later a \<^verbatim>\<open>/\<close>, one character and \<^verbatim>\<open>git\<close>,
  \<^verbatim>\<open>bzr\<close> or \<^verbatim>\<open>hg\<close>, with no newline between \<^verbatim>\<open>go/\<close> and that word; or it contains \<^verbatim>\<open>go/pkg\<close>
  or \<^verbatim>\<open>go/bin\<close>. Whatever the outcome of a build, no entry of the archive has an excluded
  path: none ends in \<^verbatim>\<open>.DS_Store\<close>, none contains \<^verbatim>\<open>go/pkg\<close> or \<^verbatim>\<open>go/bin\<close>, and none
  contains \<^verbatim>\<open>go/\<close> followed on the same line by \<^verbatim>\<open>/.git\<close>, \<^verbatim>\<open>/.bzr\<close> or \<^verbatim>\<open>/.hg\<close>.
\<close>

theorem exclusion_is_an_unanchored_search:
  "(MatchString patternToExclude p \<longleftrightarrow>
       (\<exists>u c v. c \<noteq> CHR 0x0A \<and> p = u @ c # ''DS_Store'' @ v)
     \<or> (\<exists>u x c vcs v. vcs \<in> {''git'', ''bzr'', ''hg''} \<and> CHR 0x0A \<notin> set x \<and> c \<noteq> CHR 0x0A \<and>
            p = u @ ''go/'' @ x @ CHR ''/'' # c # vcs @ v)
     \<or> (\<exists>u v. p = u @ ''go/pkg'' @ v) \<or> (\<exists>u v. p = u @ ''go/bin'' @ v))
   \<and> (\<forall>e \<in> set (entries (archive_of (createAppArchive env tree appName zipFileName))).
         \<not> MatchString patternToExclude (fst e)
       \<and> (\<forall>u. fst e \<noteq> u @ ''.DS_Store'')
       \<and> (\<forall>u v. fst e \<noteq> u @ ''go/pkg'' @ v \<and> fst e \<noteq> u @ ''go/bin'' @ v)
       \<and> (\<forall>u x v. CHR 0x0A \<notin> set x \<longrightarrow>
              fst e \<noteq> u @ ''go/'' @ x @ ''/.git'' @ v
            \<and> fst e \<noteq> u @ ''go/'' @ x @ ''/.bzr'' @ v
            \<and> fst e \<noteq> u @ ''go/'' @ x @ ''/.hg'' @ v))"
proof (intro conjI ballI allI impI)
  show "MatchString patternToExclude p \<longleftrightarrow>
       (\<exists>u c v. c \<noteq> CHR 0x0A \<and> p = u @ c # ''DS_Store'' @ v)
     \<or> (\<exists>u x c vcs v. vcs \<in> {''git'', ''bzr'', ''hg''} \<and> CHR 0x0A \<notin> set x \<and> c \<noteq> CHR 0x0A \<and>
            p = u @ ''go/'' @ x @ CHR ''/'' # c # vcs @ v)
     \<or> (\<exists>u v. p = u @ ''go/pkg'' @ v) \<or> (\<exists>u v. p = u @ ''go/bin'' @ v)"
    by (rule excluded_iff)
next
  fix e
  assume "e \<in> set (entries (archive_of (createAppArchive env tree appName zipFileName)))"
  with createAppArchive_no_excluded_entry [of env tree appName zipFileName]
  have e: "\<not> MatchString patternToExclude (fst e)"
    by (simp add: no_excluded_entry_def)
  show "\<not> MatchString patternToExclude (fst e)" by (rule e)
  have dot: "CHR ''.'' \<noteq> CHR 0x0A" by simp
  {
    fix u
    have "MatchString patternToExclude (u @ CHR ''.'' # ''DS_Store'' @ [])"
      using dot by (rule excluded_ds_store)
    with e show "fst e \<noteq> u @ ''.DS_Store''" by auto
  }
  {
    fix u v
    from e excluded_go_pkg [of u v] show "fst e \<noteq> u @ ''go/pkg'' @ v" by auto
    from e excluded_go_bin [of u v] show "fst e \<noteq> u @ ''go/bin'' @ v" by auto
  }
  {
    fix u x v
    assume x: "CHR 0x0A \<notin> set x"
    have "MatchString patternToExclude (u @ ''go/'' @ x @ CHR ''/'' # CHR ''.'' # ''git'' @ v)"
      using _ x dot by (rule excluded_under_go) simp
    with e show "fst e \<noteq> u @ ''go/'' @ x @ ''/.git'' @ v" by auto
    have "MatchString patternToExclude (u @ ''go/'' @ x @ CHR ''/'' # CHR ''.'' # ''bzr'' @ v)"
      using _ x dot by (rule excluded_under_go) simp
    with e show "fst e \<noteq> u @ ''go/'' @ x @ ''/.bzr'' @ v" by auto
    have "MatchString patternToExclude (u @ ''go/'' @ x @ CHR ''/'' # CHR ''.'' # ''hg'' @ v)"
      using _ x dot by (rule excluded_under_go) simp
    with e show "fst e \<noteq> u @ ''go/'' @ x @ ''/.hg'' @ v" by auto
  }
qed

theorem exclusion_is_an_unanchored_search_witness:
  "MatchString patternToExclude ''app/go/src/x/.git/config''
   \<and> entries (archive_of (createAppArchive no_faults (app_tree ''m'' ''h'' ''d'') ''app/'' ''app.zip''))
       = [(''app/.git/HEAD'', ''h''), (''app/main.go'', ''m'')]
   \<and> \<not> MatchString patternToExclude ''app/.git/HEAD''
   \<and> \<not> MatchString patternToExclude ''app/main.go''"
proof -
  note search = exclusion_is_an_unanchored_search
    [of "''app/go/src/x/.git/config''" no_faults "app_tree ''m'' ''h'' ''d''" "''app/''" "''app.zip''"]
  have "\<exists>u x c vcs v. vcs \<in> {''git'', ''bzr'', ''hg''} \<and> CHR 0x0A \<notin> set x \<and> c \<noteq> CHR 0x0A \<and>
      ''app/go/src/x/.git/config'' = u @ ''go/'' @ x @ CHR ''/'' # c # vcs @ v"
    by (intro exI [of _ "''app/''"] exI [of _ "''src/x''"] exI [of _ "CHR ''.''"]
        exI [of _ "''git''"] exI [of _ "''/config''"]) simp
  then have found: "MatchString patternToExclude ''app/go/src/x/.git/config''"
    by (intro search [THEN conjunct1, THEN iffD2] disjI2 disjI1)
  have run: "entries (archive_of
      (createAppArchive no_faults (app_tree ''m'' ''h'' ''d'') ''app/'' ''app.zip''))
      = [(''app/.git/HEAD'', ''h''), (''app/main.go'', ''m'')]"
    by (simp add: builder_defs no_faults_def app_tree_def)
  have head: "(''app/.git/HEAD'', ''h'') \<in> set (entries (archive_of
      (createAppArchive no_faults (app_tree ''m'' ''h'' ''d'') ''app/'' ''app.zip'')))"
    unfolding run by simp
  have main: "(''app/main.go'', ''m'') \<in> set (entries (archive_of
      (createAppArchive no_faults (app_tree ''m'' ''h'' ''d'') ''app/'' ''app.zip'')))"
    unfolding run by simp
  from search [THEN conjunct2, THEN bspec, OF head]
  have kept_head: "\<not> MatchString patternToExclude ''app/.git/HEAD''" by simp
  from search [THEN conjunct2, THEN bspec, OF main]
  have kept_main: "\<not> MatchString patternToExclude ''app/main.go''" by simp
  from found run kept_head kept_main show ?thesis by (intro conjI)
qed

section \<open>Errors of the collaborator\<close>

text \<open>
  C5 says that every error returned by the collaborator is printed and ends the command.
  With a collaborator that refuses every invocation, \<^verbatim>\<open>q start app1\<close> (either file) prints the
  result map and returns as after a success; the error is never looked at. \<^verbatim>\<open>q list\<close> shows
  both behaviours: \<^verbatim>\<open>src/unnamed/part_000\<close> prints the error, \<^verbatim>\<open>src/q.go\<close> renders a table.
\<close>

theorem remote_errors_are_dropped:
  "main_part_000 refusing_env (no_arguments\<lparr>arg_start := True, arg_appid := Some ''app1''\<rparr>)
      sample_world =
     (Returned, sample_world\<lparr>trace :=
        [ReadFile ''/home/op/.agent.json'',
         Called \<lparr>Service = ''http://agent'', Credentials = ''op:secret''\<rparr> (StartApp ''app1''),
         Printed (ResultMap ''map[]'')]\<rparr>)
   \<and> main_q refusing_env (no_arguments\<lparr>arg_start := True, arg_appid := Some ''app1''\<rparr>)
      sample_world =
     (Returned, sample_world\<lparr>trace :=
        [ReadFile ''/home/op/.agent.json'',
         Called \<lparr>Service = ''http://agent'', Credentials = ''op:secret''\<rparr> (StartApp ''app1''),
         Printed (ResultMap ''map[]'')]\<rparr>)
   \<and> main_part_000 refusing_env (no_arguments\<lparr>arg_list := True\<rparr>) sample_world =
     (Returned, sample_world\<lparr>trace :=
        [ReadFile ''/home/op/.agent.json'',
         Called \<lparr>Service = ''http://agent'', Credentials = ''op:secret''\<rparr> GetApps,
         Printed (ErrorLine (Err ''connection refused''))]\<rparr>)
   \<and> main_q refusing_env (no_arguments\<lparr>arg_list := True\<rparr>) sample_world =
     (Returned, sample_world\<lparr>trace :=
        [ReadFile ''/home/op/.agent.json'',
         Called \<lparr>Service = ''http://agent'', Credentials = ''op:secret''\<rparr> GetApps,
         Printed (AppsTable [])]\<rparr>)"
  by (simp add: main_q_def main_part_000_def block_defs step_defs sample_defs)

section \<open>One method per operation\<close>

text \<open>
  C7, as stated: every operation is one invocation of the collaborator. \<^verbatim>\<open>q restart app1\<close>
  invokes two methods, \<^verbatim>\<open>StopApp\<close> and then \<^verbatim>\<open>StartApp\<close>.
\<close>

theorem restart_is_two_invocations_counterexample:
  "invocations (trace (snd (main_part_000 sample_env
      (no_arguments\<lparr>arg_restart := True, arg_appid := Some ''app1''\<rparr>) sample_world)))
     = [StopApp ''app1'', StartApp ''app1'']
   \<and> length (invocations (trace (snd (main_part_000 sample_env
      (no_arguments\<lparr>arg_restart := True, arg_appid := Some ''app1''\<rparr>) sample_world)))) \<noteq> 1"
  by (simp add: main_part_000_def block_defs step_defs sample_defs)

section \<open>The connection record\<close>

lemma connect_run_q:
  assumes "selects Connect args" and "arg_service args = Some s"
    and "json_Marshal env \<lparr>Service = s,
           Credentials = fmt_v (opt_u args) @ '':'' @ fmt_v (opt_p args)\<rparr> = Inr bytes"
    and "WriteFile_err env (credentialsFileName env) = None"
  shows "main_q env args w =
     (Returned, w\<lparr>files := (files w)(credentialsFileName env := Inr bytes),
                   trace := trace w @ [WriteFile (credentialsFileName env) bytes,
                                       Printed (ArgumentsMap args)]\<rparr>)"
  using assms
  by (simp add: main_q_def connect_block_def selects_def andthen_def yield_def emit_def
      check_def assert_string_def ioutil_WriteFile_def Printf_def finish_def)

lemma connect_run_part_000:
  assumes "selects Connect args" and "arg_service args = Some s"
    and "json_Marshal env \<lparr>Service = s,
           Credentials = fmt_v (opt_u args) @ '':'' @ fmt_v (opt_p args)\<rparr> = Inr bytes"
    and "WriteFile_err env (credentialsFileName env) = None"
  shows "main_part_000 env args w =
     (Returned, w\<lparr>files := (files w)(credentialsFileName env := Inr bytes),
                   trace := trace w @ [WriteFile (credentialsFileName env) bytes,
                                       Printed (ArgumentsMap args)]\<rparr>)"
  using assms
  by (simp add: main_part_000_def connect_block_def selects_def andthen_def yield_def emit_def
      check_def assert_string_def ioutil_WriteFile_def Printf_def finish_def)

text \<open>
  C10: after \<^verbatim>\<open>connect\<close> (in either file, when the record can be encoded and written) the
  connection file holds the encoding of the record whose credential string is the username
  option, a colon and the password option, where an option that was not given is written
  \<^verbatim>\<open><nil>\<close>.
\<close>

theorem connect_persists_formatted_credentials:
  assumes "selects Connect args" and "arg_service args = Some s"
    and "json_Marshal env \<lparr>Service = s,
           Credentials = (case opt_u args of Some u \<Rightarrow> u | None \<Rightarrow> ''<nil>'') @ '':'' @
                         (case opt_p args of Some p \<Rightarrow> p | None \<Rightarrow> ''<nil>'')\<rparr> = Inr bytes"
    and "WriteFile_err env (credentialsFileName env) = None"
  shows "files (snd (main_q env args w)) (credentialsFileName env) = Inr bytes
       \<and> files (snd (main_part_000 env args w)) (credentialsFileName env) = Inr bytes"
proof -
  from assms(3) have enc: "json_Marshal env \<lparr>Service = s,
      Credentials = fmt_v (opt_u args) @ '':'' @ fmt_v (opt_p args)\<rparr> = Inr bytes"
    by (simp add: fmt_v_def)
  show ?thesis
    by (simp add: connect_run_q [OF assms(1,2) enc assms(4)]
        connect_run_part_000 [OF assms(1,2) enc assms(4)])
qed

theorem connect_persists_formatted_credentials_witness:
  "files (snd (main_q sample_env
      (no_arguments\<lparr>arg_connect := True, arg_service := Some ''http://agent''\<rparr>) empty_world))
      ''/home/op/.agent.json'' = Inr ''{http://agent,<nil>:<nil>}''
   \<and> files (snd (main_part_000 sample_env
      (no_arguments\<lparr>arg_connect := True, arg_service := Some ''http://agent''\<rparr>) empty_world))
      ''/home/op/.agent.json'' = Inr ''{http://agent,<nil>:<nil>}''"
proof -
  let ?args = "no_arguments\<lparr>arg_connect := True, arg_service := Some ''http://agent''\<rparr>"
  have 1: "selects Connect ?args" by (simp add: selects_def no_arguments_def)
  have 2: "arg_service ?args = Some ''http://agent''" by simp
  have 3: "json_Marshal sample_env \<lparr>Service = ''http://agent'',
           Credentials = (case opt_u ?args of Some u \<Rightarrow> u | None \<Rightarrow> ''<nil>'') @ '':'' @
                         (case opt_p ?args of Some p \<Rightarrow> p | None \<Rightarrow> ''<nil>'')\<rparr>
        = Inr ''{http://agent,<nil>:<nil>}''"
    by (simp add: sample_env_def no_arguments_def)
  have 4: "WriteFile_err sample_env (credentialsFileName sample_env) = None"
    by (simp add: sample_env_def)
  have name: "credentialsFileName sample_env = ''/home/op/.agent.json''"
    by (simp add: credentialsFileName_def sample_env_def)
  from connect_persists_formatted_credentials [OF 1 2 3 4, of empty_world]
  show ?thesis unfolding name .
qed

section \<open>Reading and writing the connection file\<close>

lemma extendsI: "(\<And>w. \<exists>evs. trace (snd (m w)) = trace w @ evs) \<Longrightarrow> extends m"
  by (simp add: extends_def)

lemma extends_andthen:
  assumes "extends m" and "\<And>x. extends (f x)"
  shows "extends (andthen m f)"
proof (rule extendsI)
  fix w
  from assms(1) obtain evs where m: "trace (snd (m w)) = trace w @ evs"
    unfolding extends_def by blast
  show "\<exists>evs. trace (snd (andthen m f w)) = trace w @ evs"
  proof (cases "m w")
    case (Pair r w1)
    show ?thesis
    proof (cases r)
      case (Inl st)
      with Pair m show ?thesis by (simp add: andthen_def)
    next
      case (Inr x)
      from assms(2) [of x] obtain evs' where "trace (snd (f x w1)) = trace w1 @ evs'"
        unfolding extends_def by blast
      with Pair Inr m show ?thesis by (simp add: andthen_def)
    qed
  qed
qed

lemma extends_basic:
  "extends (yield x)"
  "extends return_from_main"
  "extends (emit ev)"
  "extends (check err)"
  "extends (assert_string v)"
  "extends (ioutil_ReadFile name)"
  "extends (ioutil_WriteFile env name bytes)"
  "extends (os_Remove name)"
  "extends (invoke env c k)"
  "extends (Printf out)"
  "extends (exec_zip env z n)"
  "extends (run_createAppArchive env a z)"
  by (simp_all add: extends_def yield_def return_from_main_def emit_def check_def
      assert_string_def ioutil_ReadFile_def ioutil_WriteFile_def os_Remove_def invoke_def
      Printf_def exec_zip_def run_createAppArchive_def
      split: option.splits sum.splits outcome.splits)

lemma extends_if: "extends a \<Longrightarrow> extends b \<Longrightarrow> extends (if c then a else b)"
  by simp

lemma extends_case_option:
  "extends a \<Longrightarrow> (\<And>y. extends (b y)) \<Longrightarrow> extends (case x of None \<Rightarrow> a | Some y \<Rightarrow> b y)"
  by (cases x) simp_all

lemma extends_case_sum:
  "(\<And>y. extends (a y)) \<Longrightarrow> (\<And>y. extends (b y)) \<Longrightarrow>
     extends (case x of Inl y \<Rightarrow> a y | Inr y \<Rightarrow> b y)"
  by (cases x) simp_all

lemma extends_case_prod:
  "(\<And>a b. extends (f a b)) \<Longrightarrow> extends (case p of (a, b) \<Rightarrow> f a b)"
  by (cases p) simp

lemma extends_Let: "extends (f x) \<Longrightarrow> extends (Let x f)"
  by simp

lemmas extends_intros =
  extends_andthen extends_basic extends_if extends_case_option extends_case_sum
  extends_case_prod extends_Let

lemma extends_blocks:
  "extends (list_block_q env c)"
  "extends (list_block_part_000 env c)"
  "extends (show_block_q env args c)"
  "extends (show_block_part_000 env args c)"
  "extends (create_block env args c)"
  "extends (upload_block_q env args c)"
  "extends (upload_block_part_000 env args c)"
  "extends (scoped_block env args c fa fv)"
  "extends (restart_block env args c)"
  unfolding list_block_q_def list_block_part_000_def show_block_q_def show_block_part_000_def
    create_block_def upload_block_q_def upload_block_part_000_def scoped_block_def
    restart_block_def
  by (intro extends_intros)+

lemma andthen_assoc: "andthen (andthen m f) g = andthen m (\<lambda>x. andthen (f x) g)"
  by (rule ext) (simp add: andthen_def split: prod.splits sum.splits)

lemma trace_finish: "trace (snd (finish r)) = trace (snd r)"
  by (cases r) (simp add: finish_def split: sum.splits)

lemma reads_first:
  assumes "\<And>x. extends (k x)"
  shows "\<exists>rest. trace (snd (finish (andthen (ioutil_ReadFile name) k w))) =
           trace w @ ReadFile name # rest"
proof -
  obtain x w1 where r: "ioutil_ReadFile name w = (Inr x, w1)"
    and w1: "trace w1 = trace w @ [ReadFile name]"
    by (cases "files w name") (simp_all add: ioutil_ReadFile_def)
  from assms [of x] obtain evs where "trace (snd (k x w1)) = trace w1 @ evs"
    unfolding extends_def by blast
  with r w1 show ?thesis by (simp add: trace_finish andthen_def)
qed

lemma dispatch_extends_q:
  "extends (if arg_list args then list_block_q env c
        else if arg_show args then show_block_q env args c
        else if arg_create args then create_block env args c
        else if arg_upload args then upload_block_q env args c
        else if arg_start args then scoped_block env args c StartApp StartAppVersion
        else if arg_stop args then scoped_block env args c StopApp StopAppVersion
        else if arg_delete args then scoped_block env args c DeleteApp DeleteAppVersion
        else Printf (ArgumentsMap args))"
  by (intro extends_if extends_blocks extends_basic)

lemma dispatch_extends_part_000:
  "extends (if arg_list args then list_block_part_000 env c
        else if arg_show args then show_block_part_000 env args c
        else if arg_create args then create_block env args c
        else if arg_upload args then upload_block_part_000 env args c
        else if arg_start args then scoped_block env args c StartApp StartAppVersion
        else if arg_stop args then scoped_block env args c StopApp StopAppVersion
        else if arg_restart args then restart_block env args c
        else if arg_delete args then scoped_block env args c DeleteApp DeleteAppVersion
        else Printf (ArgumentsMap args))"
  by (intro extends_if extends_blocks extends_basic)

lemma reads_connection_first_q:
  assumes "\<not> arg_connect args"
  shows "\<exists>rest. trace (snd (main_q env args w)) =
           trace w @ ReadFile (credentialsFileName env) # rest"
proof -
  from assms have "main_q env args w = finish
     (andthen (read_connection_q env) (\<lambda>c.
        if arg_list args then list_block_q env c
        else if arg_show args then show_block_q env args c
        else if arg_create args then create_block env args c
        else if arg_upload args then upload_block_q env args c
        else if arg_start args then scoped_block env args c StartApp StartAppVersion
        else if arg_stop args then scoped_block env args c StopApp StopAppVersion
        else if arg_delete args then scoped_block env args c DeleteApp DeleteAppVersion
        else Printf (ArgumentsMap args)) w)"
    by (simp add: main_q_def)
  then show ?thesis
    unfolding read_connection_q_def andthen_assoc
    by (simp only:)
       (intro reads_first extends_case_prod extends_andthen extends_basic dispatch_extends_q)
qed

lemma reads_connection_first_part_000:
  assumes "\<not> arg_connect args"
  shows "\<exists>rest. trace (snd (main_part_000 env args w)) =
           trace w @ ReadFile (credentialsFileName env) # rest"
proof -
  from assms have "main_part_000 env args w = finish
     (andthen (read_connection_part_000 env) (\<lambda>c.
        if arg_list args then list_block_part_000 env c
        else if arg_show args then show_block_part_000 env args c
        else if arg_create args then create_block env args c
        else if arg_upload args then upload_block_part_000 env args c
        else if arg_start args then scoped_block env args c StartApp StartAppVersion
        else if arg_stop args then scoped_block env args c StopApp StopAppVersion
        else if arg_restart args then restart_block env args c
        else if arg_delete args then scoped_block env args c DeleteApp DeleteAppVersion
        else Printf (ArgumentsMap args)) w)"
    by (simp add: main_part_000_def)
  then show ?thesis
    unfolding read_connection_part_000_def andthen_assoc
    by (simp only:)
       (intro reads_first extends_case_prod extends_case_option extends_andthen extends_basic
          dispatch_extends_part_000)
qed

lemma unreadable_connection_q:
  assumes "\<not> arg_connect args" and "files w (credentialsFileName env) = Inl e"
  shows "main_q env args w =
           (Panicked e, w\<lparr>trace := trace w @ [ReadFile (credentialsFileName env)]\<rparr>)"
  using assms
  by (simp add: main_q_def read_connection_q_def andthen_def ioutil_ReadFile_def check_def
      finish_def)

lemma unreadable_connection_part_000:
  assumes "\<not> arg_connect args" and "files w (credentialsFileName env) = Inl e"
  shows "main_part_000 env args w =
           (Returned, w\<lparr>trace := trace w @ [ReadFile (credentialsFileName env),
                                               Printed (UnableToRead (credentialsFileName env))]\<rparr>)"
  using assms
  by (simp add: main_part_000_def read_connection_part_000_def andthen_def ioutil_ReadFile_def
      Printf_def emit_def return_from_main_def finish_def)

text \<open>
  C6: \<^verbatim>\<open>connect\<close> (when the record can be encoded and written) leaves the encoded record
  in the file \<^verbatim>\<open>.agent.json\<close> of the home directory, whatever the file held before, and
  reads nothing; every run without \<^verbatim>\<open>connect\<close> begins by reading that file; and when the
  file cannot be read the run ends at once, without any invocation of the collaborator:
  \<^verbatim>\<open>src/q.go\<close> panics with the error, \<^verbatim>\<open>src/unnamed/part_000\<close> prints that it is unable to
  read the file and returns.
\<close>

theorem connection_file_written_by_connect_read_by_the_rest:
  "(selects Connect args \<longrightarrow> arg_service args = Some s \<longrightarrow>
      json_Marshal env \<lparr>Service = s,
        Credentials = fmt_v (opt_u args) @ '':'' @ fmt_v (opt_p args)\<rparr> = Inr bytes \<longrightarrow>
      WriteFile_err env (credentialsFileName env) = None \<longrightarrow>
        main_q env args w =
          (Returned, w\<lparr>files := (files w)(credentialsFileName env := Inr bytes),
             trace := trace w @ [WriteFile (credentialsFileName env) bytes,
                                 Printed (ArgumentsMap args)]\<rparr>)
      \<and> main_part_000 env args w =
          (Returned, w\<lparr>files := (files w)(credentialsFileName env := Inr bytes),
             trace := trace w @ [WriteFile (credentialsFileName env) bytes,
                                 Printed (ArgumentsMap args)]\<rparr>))
   \<and> (\<not> arg_connect args \<longrightarrow>
        (\<exists>rest. trace (snd (main_q env args w)) =
           trace w @ ReadFile (credentialsFileName env) # rest)
      \<and> (\<exists>rest. trace (snd (main_part_000 env args w)) =
           trace w @ ReadFile (credentialsFileName env) # rest))
   \<and> (\<not> arg_connect args \<longrightarrow> files w (credentialsFileName env) = Inl e \<longrightarrow>
        main_q env args w =
          (Panicked e, w\<lparr>trace := trace w @ [ReadFile (credentialsFileName env)]\<rparr>)
      \<and> main_part_000 env args w =
          (Returned, w\<lparr>trace := trace w @ [ReadFile (credentialsFileName env),
             Printed (UnableToRead (credentialsFileName env))]\<rparr>))"
  by (intro conjI impI connect_run_q connect_run_part_000 reads_connection_first_q
      reads_connection_first_part_000 unreadable_connection_q unreadable_connection_part_000)

theorem connection_file_written_by_connect_read_by_the_rest_witness:
  "main_q sample_env (no_arguments\<lparr>arg_connect := True, arg_service := Some ''http://agent'',
        opt_u := Some ''op'', opt_p := Some ''secret''\<rparr>) sample_world =
     (Returned, sample_world\<lparr>files := (files sample_world)
          (''/home/op/.agent.json'' := Inr ''{http://agent,op:secret}''),
        trace := [WriteFile ''/home/op/.agent.json'' ''{http://agent,op:secret}'',
                  Printed (ArgumentsMap (no_arguments\<lparr>arg_connect := True,
                    arg_service := Some ''http://agent'', opt_u := Some ''op'',
                    opt_p := Some ''secret''\<rparr>))]\<rparr>)
   \<and> (\<exists>rest. trace (snd (main_part_000 sample_env (no_arguments\<lparr>arg_list := True\<rparr>)
          sample_world)) = ReadFile ''/home/op/.agent.json'' # rest)
   \<and> main_q sample_env (no_arguments\<lparr>arg_list := True\<rparr>) empty_world =
     (Panicked (Err ''no such file or directory''),
      empty_world\<lparr>trace := [ReadFile ''/home/op/.agent.json'']\<rparr>)
   \<and> main_part_000 sample_env (no_arguments\<lparr>arg_list := True\<rparr>) empty_world =
     (Returned, empty_world\<lparr>trace := [ReadFile ''/home/op/.agent.json'',
        Printed (UnableToRead ''/home/op/.agent.json'')]\<rparr>)"
proof -
  let ?connect = "no_arguments\<lparr>arg_connect := True, arg_service := Some ''http://agent'',
        opt_u := Some ''op'', opt_p := Some ''secret''\<rparr>"
  let ?list = "no_arguments\<lparr>arg_list := True\<rparr>"
  have name: "credentialsFileName sample_env = ''/home/op/.agent.json''"
    by (simp add: credentialsFileName_def sample_env_def)
  have c1: "selects Connect ?connect" by (simp add: selects_def no_arguments_def)
  have c2: "arg_service ?connect = Some ''http://agent''" by simp
  have c3: "json_Marshal sample_env \<lparr>Service = ''http://agent'',
      Credentials = fmt_v (opt_u ?connect) @ '':'' @ fmt_v (opt_p ?connect)\<rparr>
      = Inr ''{http://agent,op:secret}''"
    by (simp add: sample_env_def fmt_v_def)
  have c4: "WriteFile_err sample_env (credentialsFileName sample_env) = None"
    by (simp add: sample_env_def)
  have l1: "\<not> arg_connect ?list" by (simp add: no_arguments_def)
  have l2: "files empty_world (credentialsFileName sample_env) = Inl (Err ''no such file or directory'')"
    by (simp add: empty_world_def)
  have t0: "trace sample_world = []" "trace empty_world = []"
    by (simp_all add: sample_world_def empty_world_def)
  note written = connection_file_written_by_connect_read_by_the_rest
    [of ?connect "''http://agent''" sample_env "''{http://agent,op:secret}''" sample_world,
      THEN conjunct1, rule_format, OF c1 c2 c3 c4, THEN conjunct1]
  note first = connection_file_written_by_connect_read_by_the_rest
    [of ?list _ sample_env _ sample_world, THEN conjunct2, THEN conjunct1, rule_format, OF l1,
      THEN conjunct2]
  note unreadable = connection_file_written_by_connect_read_by_the_rest
    [of ?list _ sample_env _ empty_world, THEN conjunct2, THEN conjunct2, rule_format, OF l1 l2]
  from written first unreadable show ?thesis
    unfolding name by (simp add: t0)
qed

section \<open>The invocations of every operation\<close>

lemmas run_defs =
  invocations_q_def invocations_part_000_def main_q_def main_part_000_def selects_def
  andthen_def yield_def return_from_main_def emit_def check_def assert_string_def
  ioutil_ReadFile_def ioutil_WriteFile_def invoke_def Printf_def finish_def
  read_connection_q_def read_connection_part_000_def Let_def

lemma connect_invokes_nothing:
  assumes "selects Connect args" and "trace w = []"
  shows "invocations_q env args w = []" and "invocations_part_000 env args w = []"
  using assms
  by (simp_all add: run_defs connect_block_def Let_def split: option.splits sum.splits)

lemma list_invokes:
  assumes "selects List args" and "trace w = []" and "files w (credentialsFileName env) = Inr b"
  shows "invocations_q env args w = [GetApps]" and "invocations_part_000 env args w = [GetApps]"
  using assms
  by (simp_all add: run_defs list_block_q_def list_block_part_000_def split: option.splits)

lemma show_invokes:
  assumes "selects Show args" and "trace w = []" and "files w (credentialsFileName env) = Inr b"
    and "arg_appid args = Some appid"
  shows "invocations_q env args w = [GetApp appid]"
    and "invocations_part_000 env args w = [GetApp appid]"
  using assms
  by (simp_all add: run_defs show_block_q_def show_block_part_000_def split: option.splits)

lemma create_invokes:
  assumes "selects Create args" and "trace w = []" and "files w (credentialsFileName env) = Inr b"
    and "files w (fmt_v (arg_appname args) @ ''/app.yaml'') = Inr y"
  shows "invocations_q env args w = [CreateApp (yaml_Unmarshal env y)]"
    and "invocations_part_000 env args w = [CreateApp (yaml_Unmarshal env y)]"
  using assms
  by (simp_all add: run_defs create_block_def)

lemma start_invokes:
  assumes "selects Start args" and "trace w = []" and "files w (credentialsFileName env) = Inr b"
    and "arg_appid args = Some appid"
  shows "invocations_q env args w = [scoped StartApp StartAppVersion appid (arg_versionid args)]"
    and "invocations_part_000 env args w =
           [scoped StartApp StartAppVersion appid (arg_versionid args)]"
  using assms
  by (cases "arg_versionid args"; simp add: run_defs scoped_block_def)+

lemma stop_invokes:
  assumes "selects Stop args" and "trace w = []" and "files w (credentialsFileName env) = Inr b"
    and "arg_appid args = Some appid"
  shows "invocations_q env args w = [scoped StopApp StopAppVersion appid (arg_versionid args)]"
    and "invocations_part_000 env args w =
           [scoped StopApp StopAppVersion appid (arg_versionid args)]"
  using assms
  by (cases "arg_versionid args"; simp add: run_defs scoped_block_def)+

lemma delete_invokes:
  assumes "selects Delete args" and "trace w = []" and "files w (credentialsFileName env) = Inr b"
    and "arg_appid args = Some appid"
  shows "invocations_q env args w = [scoped DeleteApp DeleteAppVersion appid (arg_versionid args)]"
    and "invocations_part_000 env args w =
           [scoped DeleteApp DeleteAppVersion appid (arg_versionid args)]"
  using assms
  by (cases "arg_versionid args"; simp add: run_defs scoped_block_def)+

lemma restart_invokes:
  assumes "selects Restart args" and "trace w = []" and "files w (credentialsFileName env) = Inr b"
    and "arg_appid args = Some appid"
  shows "invocations_part_000 env args w =
           [scoped StopApp StopAppVersion appid (arg_versionid args),
            scoped StartApp StartAppVersion appid (arg_versionid args)]"
    and "invocations_q env args w = []"
  using assms
  by (cases "arg_versionid args"; simp add: run_defs restart_block_def)+

lemma invocations_append: "invocations (xs @ ys) = invocations xs @ invocations ys"
  by (induction xs rule: invocations.induct) simp_all

lemma invocations_printed: "invocations (map (\<lambda>x. Printed (f x)) xs) = []"
  by (induction xs) simp_all

lemma upload_invokes_part_000:
  assumes "selects Upload args" and "trace w = []"
    and "files w (credentialsFileName env) = Inr b" and "arg_appid args = Some appid"
  shows "(\<exists>e. fst (main_part_000 env args w) = Exited e
              \<and> invocations_part_000 env args w = [GetApp appid])
       \<or> (\<exists>bytes. fst (main_part_000 env args w) = Returned
              \<and> invocations_part_000 env args w = [GetApp appid, CreateAppVersion appid bytes])"
proof -
  let ?c = "json_Unmarshal env b"
  let ?zip = "Name (reply_app (remote env ?c (GetApp appid))) @ ''.zip''"
  show ?thesis
  proof (cases "createAppArchive (zip_writer env) (tree_at env appid) appid ?zip")
    case (Return r a)
    with assms have "fst (main_part_000 env args w) = Returned
        \<and> invocations_part_000 env args w =
            [GetApp appid, CreateAppVersion appid (zip_bytes env (entries a))]"
      by (simp add: run_defs upload_block_part_000_def os_Remove_def run_createAppArchive_def
          invocations_append invocations_printed)
    then show ?thesis by blast
  next
    case (Fatal e a)
    with assms have "fst (main_part_000 env args w) = Exited e
        \<and> invocations_part_000 env args w = [GetApp appid]"
      by (simp add: run_defs upload_block_part_000_def os_Remove_def run_createAppArchive_def
          invocations_append invocations_printed)
    then show ?thesis by blast
  qed
qed

lemma upload_invokes_q:
  assumes "selects Upload args" and "trace w = []"
    and "files w (credentialsFileName env) = Inr b" and "arg_appid args = Some appid"
  shows "(\<exists>e. fst (main_q env args w) = Panicked e
              \<and> invocations_q env args w = [GetApp appid])
       \<or> (\<exists>bytes. fst (main_q env args w) = Returned
              \<and> invocations_q env args w = [GetApp appid, CreateAppVersion appid bytes])"
proof -
  let ?c = "json_Unmarshal env b"
  let ?name = "Name (reply_app (remote env ?c (GetApp appid)))"
  show ?thesis
  proof (cases "zip_program env (?name @ ''.zip'') ?name")
    case (Inr bytes)
    with assms have "fst (main_q env args w) = Returned
        \<and> invocations_q env args w = [GetApp appid, CreateAppVersion appid bytes]"
      by (simp add: run_defs upload_block_q_def exec_zip_def)
    then show ?thesis by blast
  next
    case (Inl e)
    with assms have "fst (main_q env args w) = Panicked e
        \<and> invocations_q env args w = [GetApp appid]"
      by (simp add: run_defs upload_block_q_def exec_zip_def)
    then show ?thesis by blast
  qed
qed

lemma unreadable_invokes_nothing:
  assumes "\<not> arg_connect args" and "trace w = []"
    and "files w (credentialsFileName env) = Inl e"
  shows "invocations_q env args w = []" and "invocations_part_000 env args w = []"
  using unreadable_connection_q [OF assms(1,3)] unreadable_connection_part_000 [OF assms(1,3)]
    assms(2)
  by (simp_all add: invocations_q_def invocations_part_000_def)

text \<open>
  C7, amended: in a run of either file, \<^verbatim>\<open>connect\<close> invokes no method of the collaborator,
  and neither does any other operation when the connection file cannot be read. With the
  connection file readable, \<^verbatim>\<open>list\<close>, \<^verbatim>\<open>show\<close>, \<^verbatim>\<open>create\<close> (with a readable manifest),
  \<^verbatim>\<open>start\<close>, \<^verbatim>\<open>stop\<close> and \<^verbatim>\<open>delete\<close> each invoke exactly one method, the method for a version
  when a version identifier is given; \<^verbatim>\<open>upload\<close> invokes \<^verbatim>\<open>GetApp\<close> and, unless making the
  archive ended the run, \<^verbatim>\<open>CreateAppVersion\<close> after it; \<^verbatim>\<open>restart\<close> invokes the stop method
  and then the start method. \<^verbatim>\<open>restart\<close> is a command of \<^verbatim>\<open>src/unnamed/part_000\<close> only: the
  usage text of \<^verbatim>\<open>src/q.go\<close> does not have it and its \<^verbatim>\<open>main\<close> never looks at it.
\<close>

theorem operations_and_their_invocations:
  assumes "trace w = []"
  shows
   "(selects Connect args \<longrightarrow>
       invocations_q env args w = [] \<and> invocations_part_000 env args w = [])
  \<and> (\<not> arg_connect args \<longrightarrow> files w (credentialsFileName env) = Inl e \<longrightarrow>
       invocations_q env args w = [] \<and> invocations_part_000 env args w = [])
  \<and> (selects List args \<longrightarrow> files w (credentialsFileName env) = Inr b \<longrightarrow>
       invocations_q env args w = [GetApps] \<and> invocations_part_000 env args w = [GetApps])
  \<and> (selects Show args \<longrightarrow> files w (credentialsFileName env) = Inr b \<longrightarrow>
     arg_appid args = Some appid \<longrightarrow>
       invocations_q env args w = [GetApp appid]
     \<and> invocations_part_000 env args w = [GetApp appid])
  \<and> (selects Create args \<longrightarrow> files w (credentialsFileName env) = Inr b \<longrightarrow>
     files w (fmt_v (arg_appname args) @ ''/app.yaml'') = Inr y \<longrightarrow>
       invocations_q env args w = [CreateApp (yaml_Unmarshal env y)]
     \<and> invocations_part_000 env args w = [CreateApp (yaml_Unmarshal env y)])
  \<and> (selects Start args \<longrightarrow> files w (credentialsFileName env) = Inr b \<longrightarrow>
     arg_appid args = Some appid \<longrightarrow>
       invocations_q env args w = [scoped StartApp StartAppVersion appid (arg_versionid args)]
     \<and> invocations_part_000 env args w =
         [scoped StartApp StartAppVersion appid (arg_versionid args)])
  \<and> (selects Stop args \<longrightarrow> files w (credentialsFileName env) = Inr b \<longrightarrow>
     arg_appid args = Some appid \<longrightarrow>
       invocations_q env args w = [scoped StopApp StopAppVersion appid (arg_versionid args)]
     \<and> invocations_part_000 env args w =
         [scoped StopApp StopAppVersion appid (arg_versionid args)])
  \<and> (selects Delete args \<longrightarrow> files w (credentialsFileName env) = Inr b \<longrightarrow>
     arg_appid args = Some appid \<longrightarrow>
       invocations_q env args w = [scoped DeleteApp DeleteAppVersion appid (arg_versionid args)]
     \<and> invocations_part_000 env args w =
         [scoped DeleteApp DeleteAppVersion appid (arg_versionid args)])
  \<and> (selects Upload args \<longrightarrow> files w (credentialsFileName env) = Inr b \<longrightarrow>
     arg_appid args = Some appid \<longrightarrow>
       ((\<exists>e. fst (main_q env args w) = Panicked e
             \<and> invocations_q env args w = [GetApp appid])
        \<or> (\<exists>bytes. fst (main_q env args w) = Returned
             \<and> invocations_q env args w = [GetApp appid, CreateAppVersion appid bytes]))
     \<and> ((\<exists>e. fst (main_part_000 env args w) = Exited e
             \<and> invocations_part_000 env args w = [GetApp appid])
        \<or> (\<exists>bytes. fst (main_part_000 env args w) = Returned
             \<and> invocations_part_000 env args w =
                 [GetApp appid, CreateAppVersion appid bytes])))
  \<and> (selects Restart args \<longrightarrow> files w (credentialsFileName env) = Inr b \<longrightarrow>
     arg_appid args = Some appid \<longrightarrow>
       invocations_part_000 env args w =
         [scoped StopApp StopAppVersion appid (arg_versionid args),
          scoped StartApp StartAppVersion appid (arg_versionid args)]
     \<and> invocations_q env args w = [])
  \<and> Restart \<in> set usage_part_000 \<and> Restart \<notin> set usage_q"
proof (intro conjI impI)
  show "Restart \<in> set usage_part_000" by (simp add: usage_part_000_def)
  show "Restart \<notin> set usage_q" by (simp add: usage_q_def)
  show "invocations_q env args w = []" "invocations_part_000 env args w = []"
    if "selects Connect args"
    using that assms by (rule connect_invokes_nothing)+
  show "invocations_q env args w = []" "invocations_part_000 env args w = []"
    if "\<not> arg_connect args" and "files w (credentialsFileName env) = Inl e"
    using that(1) assms that(2) by (rule unreadable_invokes_nothing)+
  show "invocations_q env args w = [GetApps]" "invocations_part_000 env args w = [GetApps]"
    if "selects List args" and "files w (credentialsFileName env) = Inr b"
    using that(1) assms that(2) by (rule list_invokes)+
  show "invocations_q env args w = [GetApp appid]"
    "invocations_part_000 env args w = [GetApp appid]"
    if "selects Show args" and "files w (credentialsFileName env) = Inr b"
      and "arg_appid args = Some appid"
    using that(1) assms that(2,3) by (rule show_invokes)+
  show "invocations_q env args w = [CreateApp (yaml_Unmarshal env y)]"
    "invocations_part_000 env args w = [CreateApp (yaml_Unmarshal env y)]"
    if "selects Create args" and "files w (credentialsFileName env) = Inr b"
      and "files w (fmt_v (arg_appname args) @ ''/app.yaml'') = Inr y"
    using that(1) assms that(2,3) by (rule create_invokes)+
  show "invocations_q env args w = [scoped StartApp StartAppVersion appid (arg_versionid args)]"
    "invocations_part_000 env args w =
       [scoped StartApp StartAppVersion appid (arg_versionid args)]"
    if "selects Start args" and "files w (credentialsFileName env) = Inr b"
      and "arg_appid args = Some appid"
    using that(1) assms that(2,3) by (rule start_invokes)+
  show "invocations_q env args w = [scoped StopApp StopAppVersion appid (arg_versionid args)]"
    "invocations_part_000 env args w =
       [scoped StopApp StopAppVersion appid (arg_versionid args)]"
    if "selects Stop args" and "files w (credentialsFileName env) = Inr b"
      and "arg_appid args = Some appid"
    using that(1) assms that(2,3) by (rule stop_invokes)+
  show "invocations_q env args w = [scoped DeleteApp DeleteAppVersion appid (arg_versionid args)]"
    "invocations_part_000 env args w =
       [scoped DeleteApp DeleteAppVersion appid (arg_versionid args)]"
    if "selects Delete args" and "files w (credentialsFileName env) = Inr b"
      and "arg_appid args = Some appid"
    using that(1) assms that(2,3) by (rule delete_invokes)+
  show "(\<exists>e. fst (main_q env args w) = Panicked e
             \<and> invocations_q env args w = [GetApp appid])
        \<or> (\<exists>bytes. fst (main_q env args w) = Returned
             \<and> invocations_q env args w = [GetApp appid, CreateAppVersion appid bytes])"
    if "selects Upload args" and "files w (credentialsFileName env) = Inr b"
      and "arg_appid args = Some appid"
    using that(1) assms that(2,3) by (rule upload_invokes_q)
  show "(\<exists>e. fst (main_part_000 env args w) = Exited e
             \<and> invocations_part_000 env args w = [GetApp appid])
        \<or> (\<exists>bytes. fst (main_part_000 env args w) = Returned
             \<and> invocations_part_000 env args w =
                 [GetApp appid, CreateAppVersion appid bytes])"
    if "selects Upload args" and "files w (credentialsFileName env) = Inr b"
      and "arg_appid args = Some appid"
    using that(1) assms that(2,3) by (rule upload_invokes_part_000)
  show "invocations_part_000 env args w =
         [scoped StopApp StopAppVersion appid (arg_versionid args),
          scoped StartApp StartAppVersion appid (arg_versionid args)]"
    "invocations_q env args w = []"
    if "selects Restart args" and "files w (credentialsFileName env) = Inr b"
      and "arg_appid args = Some appid"
    using that(1) assms that(2,3) by (rule restart_invokes)+
qed

theorem operations_and_their_invocations_witness:
  "invocations_q sample_env
      (no_arguments\<lparr>arg_connect := True, arg_service := Some ''http://agent''\<rparr>) empty_world = []
   \<and> invocations_part_000 sample_env
      (no_arguments\<lparr>arg_connect := True, arg_service := Some ''http://agent''\<rparr>) empty_world = []
   \<and> invocations_q sample_env (no_arguments\<lparr>arg_list := True\<rparr>) empty_world = []
   \<and> invocations_q sample_env (no_arguments\<lparr>arg_list := True\<rparr>) sample_world = [GetApps]
   \<and> invocations_part_000 sample_env (no_arguments\<lparr>arg_list := True\<rparr>) sample_world = [GetApps]
   \<and> invocations_q sample_env
      (no_arguments\<lparr>arg_show := True, arg_appid := Some ''app1''\<rparr>) sample_world
     = [GetApp ''app1'']
   \<and> invocations_part_000 sample_env
      (no_arguments\<lparr>arg_create := True, arg_appname := Some ''app''\<rparr>) sample_world
     = [CreateApp \<lparr>Name = ''app'', Rendered = ''name: app''\<rparr>]
   \<and> invocations_q sample_env
      (no_arguments\<lparr>arg_start := True, arg_appid := Some ''app1''\<rparr>) sample_world
     = [StartApp ''app1'']
   \<and> invocations_part_000 sample_env
      (no_arguments\<lparr>arg_stop := True, arg_appid := Some ''app1'',
         arg_versionid := Some ''v2''\<rparr>) sample_world
     = [StopAppVersion ''app1'' ''v2'']
   \<and> invocations_q sample_env
      (no_arguments\<lparr>arg_delete := True, arg_appid := Some ''app1''\<rparr>) sample_world
     = [DeleteApp ''app1'']
   \<and> (\<exists>bytes. invocations_part_000 sample_env
      (no_arguments\<lparr>arg_upload := True, arg_appid := Some ''app1''\<rparr>) sample_world
     = [GetApp ''app1'', CreateAppVersion ''app1'' bytes])
   \<and> invocations_part_000 sample_env
      (no_arguments\<lparr>arg_restart := True, arg_appid := Some ''app1'',
         arg_versionid := Some ''v2''\<rparr>) sample_world
     = [StopAppVersion ''app1'' ''v2'', StartAppVersion ''app1'' ''v2'']"
proof -
  let ?connect = "no_arguments\<lparr>arg_connect := True, arg_service := Some ''http://agent''\<rparr>"
  let ?list = "no_arguments\<lparr>arg_list := True\<rparr>"
  let ?show = "no_arguments\<lparr>arg_show := True, arg_appid := Some ''app1''\<rparr>"
  let ?create = "no_arguments\<lparr>arg_create := True, arg_appname := Some ''app''\<rparr>"
  let ?start = "no_arguments\<lparr>arg_start := True, arg_appid := Some ''app1''\<rparr>"
  let ?stop = "no_arguments\<lparr>arg_stop := True, arg_appid := Some ''app1'',
         arg_versionid := Some ''v2''\<rparr>"
  let ?delete = "no_arguments\<lparr>arg_delete := True, arg_appid := Some ''app1''\<rparr>"
  let ?upload = "no_arguments\<lparr>arg_upload := True, arg_appid := Some ''app1''\<rparr>"
  let ?restart = "no_arguments\<lparr>arg_restart := True, arg_appid := Some ''app1'',
         arg_versionid := Some ''v2''\<rparr>"
  have t0: "trace sample_world = []" and t1: "trace empty_world = []"
    by (simp_all add: sample_world_def empty_world_def)
  have cred: "files sample_world (credentialsFileName sample_env) = Inr ''{http://agent,op:secret}''"
    by (simp add: sample_world_def credentialsFileName_def sample_env_def)
  have nocred: "files empty_world (credentialsFileName sample_env) =
      Inl (Err ''no such file or directory'')"
    by (simp add: empty_world_def)
  have yaml: "files sample_world (fmt_v (arg_appname ?create) @ ''/app.yaml'') = Inr ''name: app''"
    by (simp add: sample_world_def fmt_v_def)
  have dec: "yaml_Unmarshal sample_env ''name: app'' = \<lparr>Name = ''app'', Rendered = ''name: app''\<rparr>"
    by (simp add: sample_env_def)
  have sel: "selects Connect ?connect" "selects List ?list" "selects Show ?show"
    "selects Create ?create" "selects Start ?start" "selects Stop ?stop"
    "selects Delete ?delete" "selects Upload ?upload" "selects Restart ?restart"
    "\<not> arg_connect ?list"
    by (simp_all add: selects_def no_arguments_def)
  have ids: "arg_appid ?show = Some ''app1''" "arg_appid ?start = Some ''app1''"
    "arg_appid ?stop = Some ''app1''" "arg_appid ?delete = Some ''app1''"
    "arg_appid ?upload = Some ''app1''" "arg_appid ?restart = Some ''app1''"
    by simp_all
  have vs: "arg_versionid ?start = None" "arg_versionid ?stop = Some ''v2''"
    "arg_versionid ?delete = None" "arg_versionid ?restart = Some ''v2''"
    by (simp_all add: no_arguments_def)
  have connect: "invocations_q sample_env ?connect empty_world = []
      \<and> invocations_part_000 sample_env ?connect empty_world = []"
    by (rule operations_and_their_invocations
        [where w = empty_world and args = ?connect and env = sample_env,
          OF t1, THEN conjunct1, rule_format, OF sel(1)])
  have unread: "invocations_q sample_env ?list empty_world = []"
    by (rule operations_and_their_invocations
        [where w = empty_world and args = ?list and env = sample_env,
          OF t1, THEN conjunct2, THEN conjunct1, rule_format, OF sel(10) nocred,
          THEN conjunct1])
  have list: "invocations_q sample_env ?list sample_world = [GetApps]
      \<and> invocations_part_000 sample_env ?list sample_world = [GetApps]"
    by (rule operations_and_their_invocations
        [where w = sample_world and args = ?list and env = sample_env,
          OF t0, THEN conjunct2, THEN conjunct2, THEN conjunct1, rule_format, OF sel(2) cred])
  have "show": "invocations_q sample_env ?show sample_world = [GetApp ''app1'']"
    by (rule operations_and_their_invocations
        [where w = sample_world and args = ?show and env = sample_env,
          OF t0, THEN conjunct2, THEN conjunct2, THEN conjunct2, THEN conjunct1, rule_format,
          OF sel(3) cred ids(1), THEN conjunct1])
  have create: "invocations_part_000 sample_env ?create sample_world
      = [CreateApp \<lparr>Name = ''app'', Rendered = ''name: app''\<rparr>]"
    using operations_and_their_invocations
        [where w = sample_world and args = ?create and env = sample_env,
          OF t0, THEN conjunct2, THEN conjunct2, THEN conjunct2, THEN conjunct2, THEN conjunct1,
          rule_format, OF sel(4) cred yaml, THEN conjunct2]
    by (simp only: dec)
  have start: "invocations_q sample_env ?start sample_world = [StartApp ''app1'']"
    using operations_and_their_invocations
        [where w = sample_world and args = ?start and env = sample_env,
          OF t0, THEN conjunct2, THEN conjunct2, THEN conjunct2, THEN conjunct2, THEN conjunct2,
          THEN conjunct1, rule_format, OF sel(5) cred ids(2), THEN conjunct1]
    by (simp only: vs scoped.simps)
  have stop: "invocations_part_000 sample_env ?stop sample_world = [StopAppVersion ''app1'' ''v2'']"
    using operations_and_their_invocations
        [where w = sample_world and args = ?stop and env = sample_env,
          OF t0, THEN conjunct2, THEN conjunct2, THEN conjunct2, THEN conjunct2, THEN conjunct2,
          THEN conjunct2, THEN conjunct1, rule_format, OF sel(6) cred ids(3), THEN conjunct2]
    by (simp only: vs scoped.simps)
  have delete: "invocations_q sample_env ?delete sample_world = [DeleteApp ''app1'']"
    using operations_and_their_invocations
        [where w = sample_world and args = ?delete and env = sample_env,
          OF t0, THEN conjunct2, THEN conjunct2, THEN conjunct2, THEN conjunct2, THEN conjunct2,
          THEN conjunct2, THEN conjunct2, THEN conjunct1, rule_format, OF sel(7) cred ids(4),
          THEN conjunct1]
    by (simp only: vs scoped.simps)
  have returned: "fst (main_part_000 sample_env ?upload sample_world) = Returned"
    by (simp add: run_defs upload_block_part_000_def os_Remove_def run_createAppArchive_def
        sample_defs builder_defs no_faults_def app_tree_def)
  have upload: "\<exists>bytes. invocations_part_000 sample_env ?upload sample_world
      = [GetApp ''app1'', CreateAppVersion ''app1'' bytes]"
    using operations_and_their_invocations
        [where w = sample_world and args = ?upload and env = sample_env,
          OF t0, THEN conjunct2, THEN conjunct2, THEN conjunct2, THEN conjunct2, THEN conjunct2,
          THEN conjunct2, THEN conjunct2, THEN conjunct2, THEN conjunct1, rule_format,
          OF sel(8) cred ids(5), THEN conjunct2]
    unfolding returned by auto
  have restart: "invocations_part_000 sample_env ?restart sample_world
      = [StopAppVersion ''app1'' ''v2'', StartAppVersion ''app1'' ''v2'']"
    using operations_and_their_invocations
        [where w = sample_world and args = ?restart and env = sample_env,
          OF t0, THEN conjunct2, THEN conjunct2, THEN conjunct2, THEN conjunct2, THEN conjunct2,
          THEN conjunct2, THEN conjunct2, THEN conjunct2, THEN conjunct2, THEN conjunct1,
          rule_format, OF sel(9) cred ids(6), THEN conjunct1]
    by (simp only: vs scoped.simps)
  from connect unread list "show" create start stop delete upload restart
  show ?thesis by (intro conjI) simp_all
qed

end
